theory Spec2Isabelle
  imports Complex_Main "HOL-Library.Word" "HOL-Library.Log_Nat"
begin

section \<open>Data model of the CPU view (proc_cpuview.c)\<close>

text \<open>
  The per-CPU counters are \<open>uint64_t\<close> fields and the locals of the reconciliation are
  \<open>unsigned long\<close>: both are 64-bit words, whose arithmetic wraps around. CPU numbers,
  CPU counts and loop counters are C \<open>int\<close>s that stay far away from the limits of
  their type (they are bounded by the number of lines of the host table); they are
  modelled as \<open>int\<close>, and as \<open>nat\<close> where they index an array.
\<close>

type_synonym u64 = "64 word"

text \<open>Modelled from the spec: \<open>struct cpuacct_usage\<close> is declared in a header that
  is not part of the sources at hand; section 3 of the specification gives its fields.\<close>

record cpuacct_usage =
  user :: u64
  system :: u64
  idle :: u64
  online :: bool

text \<open>
  \<open>struct cg_proc_stat\<close>. The arrays are lists; \<open>cpu_count\<close> is the separate
  field of the structure, which the code keeps next to the arrays. The mutex is the
  boolean \<open>locked\<close>. The \<open>next\<close> pointer is the position in the chain of the bucket.
\<close>

record cg_proc_stat =
  cg :: string
  usage :: "cpuacct_usage list"
  view :: "cpuacct_usage list"
  cpu_count :: int
  locked :: bool

text \<open>
  The result of \<open>malloc\<close> for an array of counters: \<open>None\<close> is the null pointer,
  \<open>Some g\<close> is a block whose uninitialised entry \<open>i\<close> holds \<open>g i\<close>.
\<close>

type_synonym malloc_result = "(nat \<Rightarrow> cpuacct_usage) option"

definition block :: "(nat \<Rightarrow> cpuacct_usage) \<Rightarrow> int \<Rightarrow> cpuacct_usage list" where
  "block g n = map g [0..<nat n]"

definition zero_counters :: "cpuacct_usage \<Rightarrow> cpuacct_usage" where
  "zero_counters u = u\<lparr>user := 0, system := 0, idle := 0\<rparr>"

definition copy_counters :: "cpuacct_usage \<Rightarrow> cpuacct_usage \<Rightarrow> cpuacct_usage" where
  "copy_counters src dst = dst\<lparr>user := user src, system := system src, idle := idle src\<rparr>"

text \<open>\<open>memcpy(dst, src, sizeof(struct cpuacct_usage) * n)\<close>: the first \<open>n\<close> entries
  of \<open>dst\<close> are replaced by those of \<open>src\<close>, every field of them.\<close>

definition memcpy_usage :: "cpuacct_usage list \<Rightarrow> cpuacct_usage list \<Rightarrow> int \<Rightarrow> cpuacct_usage list" where
  "memcpy_usage dst src n =
     map (\<lambda>i. if int i < n then src ! i else dst ! i) [0..<length dst]"

subsection \<open>reset_proc_stat_node\<close>

text \<open>The loop that sets the three counters of the first \<open>n\<close> entries of a view to
  zero, in \<open>reset_proc_stat_node\<close> and in \<open>new_proc_stat_node\<close>.\<close>

definition zero_view :: "cpuacct_usage list \<Rightarrow> int \<Rightarrow> cpuacct_usage list" where
  "zero_view v n = fold (\<lambda>i v. v[i := zero_counters (v ! i)]) [0..<nat n] v"

definition reset_proc_stat_node :: "cg_proc_stat \<Rightarrow> cpuacct_usage list \<Rightarrow> int \<Rightarrow> cg_proc_stat" where
  "reset_proc_stat_node node usage_in cpu_cnt_in =
     node\<lparr>usage := memcpy_usage (usage node) usage_in cpu_cnt_in,
          view := zero_view (view node) cpu_cnt_in,
          cpu_count := cpu_cnt_in\<rparr>"

subsection \<open>expand_proc_stat_node\<close>

text \<open>The body of the copy loop of \<open>expand_proc_stat_node\<close> for one index \<open>i\<close>: the
  three counters are assigned, the \<open>online\<close> flag of the fresh entry is not.\<close>

definition expand_step :: "cg_proc_stat \<Rightarrow> nat \<Rightarrow> cpuacct_usage list \<times> cpuacct_usage list
    \<Rightarrow> cpuacct_usage list \<times> cpuacct_usage list" where
  "expand_step node i nn =
     (case nn of (new_usage, new_view) \<Rightarrow>
        if int i < cpu_count node
        then (new_usage[i := copy_counters (usage node ! i) (new_usage ! i)],
              new_view[i := copy_counters (view node ! i) (new_view ! i)])
        else (new_usage[i := zero_counters (new_usage ! i)],
              new_view[i := zero_counters (new_view ! i)]))"

text \<open>\<open>None\<close> is the return value \<open>false\<close>: nothing of the node has changed then.\<close>

definition expand_proc_stat_node :: "malloc_result \<Rightarrow> malloc_result \<Rightarrow> cg_proc_stat \<Rightarrow> int
    \<Rightarrow> cg_proc_stat option" where
  "expand_proc_stat_node m_usage m_view node cpu_cnt_in =
     (case m_usage of None \<Rightarrow> None | Some gu \<Rightarrow>
      case m_view of None \<Rightarrow> None | Some gv \<Rightarrow>
        (case fold (expand_step node) [0..<nat cpu_cnt_in]
                (block gu cpu_cnt_in, block gv cpu_cnt_in) of
           (new_usage, new_view) \<Rightarrow>
             Some (node\<lparr>usage := new_usage, view := new_view, cpu_count := cpu_cnt_in\<rparr>)))"

subsection \<open>add_cpu_usage and diff_cpu_usage\<close>

text \<open>\<open>add_cpu_usage\<close> is called with \<open>counter\<close> pointing into \<open>usage\<close>: at its user
  field or at its system field.\<close>

datatype counter = Counter_user | Counter_system

definition add_cpu_usage :: "u64 \<Rightarrow> cpuacct_usage \<Rightarrow> counter \<Rightarrow> u64 \<Rightarrow> u64 \<times> cpuacct_usage" where
  "add_cpu_usage surplus u counter threshold =
     (let free_space = threshold - user u - system u;
          free_space = (if free_space > idle u then idle u else free_space);
          to_add = (if free_space > surplus then surplus else free_space);
          u = (case counter of
                 Counter_user \<Rightarrow> u\<lparr>user := user u + to_add\<rparr>
               | Counter_system \<Rightarrow> u\<lparr>system := system u + to_add\<rparr>);
          u = u\<lparr>idle := idle u - to_add\<rparr>
      in (surplus - to_add, u))"

text \<open>The amount that the specification gives for one credit: the least of the pool,
  the room below the threshold and the idle time, in the arithmetic of \<open>unsigned long\<close>.\<close>

definition credited_amount :: "u64 \<Rightarrow> cpuacct_usage \<Rightarrow> u64 \<Rightarrow> u64" where
  "credited_amount pool d threshold = min pool (min (threshold - user d - system d) (idle d))"

definition diff_step :: "cpuacct_usage list \<Rightarrow> cpuacct_usage list \<Rightarrow> nat
    \<Rightarrow> cpuacct_usage list \<times> u64 \<Rightarrow> cpuacct_usage list \<times> u64" where
  "diff_step older newer i ds =
     (case ds of (diff, acc) \<Rightarrow>
        if \<not> online (newer ! i) then (diff, acc)
        else
          (let d = (diff ! i)\<lparr>
                 user := (if user (newer ! i) > user (older ! i)
                          then user (newer ! i) - user (older ! i) else 0),
                 system := (if system (newer ! i) > system (older ! i)
                          then system (newer ! i) - system (older ! i) else 0),
                 idle := (if idle (newer ! i) > idle (older ! i)
                          then idle (newer ! i) - idle (older ! i) else 0)\<rparr>
           in (diff[i := d], acc + user d + system d + idle d)))"

definition diff_cpu_usage :: "cpuacct_usage list \<Rightarrow> cpuacct_usage list \<Rightarrow> cpuacct_usage list
    \<Rightarrow> int \<Rightarrow> cpuacct_usage list \<times> u64" where
  "diff_cpu_usage older newer diff cpu_cnt_in =
     fold (diff_step older newer) [0..<nat cpu_cnt_in] (diff, 0)"

subsection \<open>The quota of the cgroup: max_cpu_count and exact_cpu_count\<close>

text \<open>
  What the collaborators outside of this file answer during one read:
  \<open>read_cpu_cfs_param\<close> for the quota and the period (\<open>None\<close> when the file cannot be
  read or parsed; the value is an \<open>int64_t\<close>), \<open>cpu_number_in_cpuset (get_cpuset cg)\<close>
  (\<open>None\<close> when \<open>get_cpuset\<close> returns the null pointer), \<open>get_nprocs\<close> and
  \<open>get_nprocs_conf\<close>, \<open>time\<close>, \<open>cgfs_param_exist\<close> for \<open>cpu.shares\<close>, \<open>calc_hash\<close>.
\<close>

record host_env =
  cfs_quota :: "int option"
  cfs_period :: "int option"
  cpus_in_cpuset :: "int option"
  get_nprocs :: int
  get_nprocs_conf :: int
  now :: int
  cg_exists :: "string \<Rightarrow> bool"
  calc_hash :: "string \<Rightarrow> nat"

text \<open>The conversion of a wider integer to \<open>int\<close>, which keeps the low 32 bits.\<close>

definition to_int32 :: "int \<Rightarrow> int" where
  "to_int32 x = sint (word_of_int x :: 32 word)"

text \<open>Quota and period are positive where the division is reached, so that the
  truncating division and remainder of C are \<open>div\<close> and \<open>mod\<close>.\<close>

definition max_cpu_count :: "host_env \<Rightarrow> int" where
  "max_cpu_count e =
     (case cfs_quota e of None \<Rightarrow> 0 | Some quota \<Rightarrow>
     (case cfs_period e of None \<Rightarrow> 0 | Some period \<Rightarrow>
        (let nr_cpus_in_cpuset = (case cpus_in_cpuset e of None \<Rightarrow> 0 | Some n \<Rightarrow> n)
         in if quota \<le> 0 \<or> period \<le> 0
            then (if nr_cpus_in_cpuset > 0 then nr_cpus_in_cpuset else 0)
            else
              (let rv = to_int32 (quota div period);
                   rv = (if quota mod period > 0 then to_int32 (rv + 1) else rv);
                   nprocs = get_nprocs e;
                   rv = (if rv > nprocs then nprocs else rv);
                   rv = (if nr_cpus_in_cpuset > 0 \<and> nr_cpus_in_cpuset < rv
                         then nr_cpus_in_cpuset else rv)
               in rv))))"

subsection \<open>The arithmetic of double\<close>

text \<open>
  A \<open>double\<close> is modelled by the rational number that it stands for. Every conversion
  and every operation gives the exact result rounded to the nearest number with 53
  significant bits, ties going to the even significand, as IEEE 754 binary64 does in
  the default rounding mode (the code is compiled for a target that evaluates
  \<open>double\<close> expressions in \<open>double\<close>). The range of the exponent is not modelled: the
  operands of this file are 64 bit integers, quotients of two of them, differences
  \<open>1 - q\<close> with \<open>q\<close> a \<open>double\<close> from 0 to 1 and products of these, none of which
  overflows or is subnormal.
\<close>

definition pow2 :: "int \<Rightarrow> rat" where
  "pow2 k = (if k \<ge> 0 then 2 ^ nat k else 1 / 2 ^ nat (- k))"

text \<open>For a positive \<open>x\<close>, the \<open>k\<close> with \<open>2 ^ k \<le> x < 2 ^ (k + 1)\<close>.\<close>

definition binary_exponent :: "rat \<Rightarrow> int" where
  "binary_exponent x =
     (case quotient_of x of (p, q) \<Rightarrow>
        (let k = bitlen p - bitlen q in if pow2 k \<le> x then k else k - 1))"

text \<open>The nearest integer, the even one of the two when they are equally near.\<close>

definition round_even :: "rat \<Rightarrow> int" where
  "round_even r =
     (let f = \<lfloor>r\<rfloor>; d = r - of_int f
      in if d < 1 / 2 then f else if d > 1 / 2 then f + 1 else if even f then f else f + 1)"

definition round_double :: "rat \<Rightarrow> rat" where
  "round_double x =
     (if x = 0 then 0
      else
        (let k = binary_exponent \<bar>x\<bar> - 52;
             m = round_even (\<bar>x\<bar> / pow2 k)
         in sgn x * of_int m * pow2 k))"

text \<open>\<open>exact_cpu_count\<close>: \<open>rv = (double)cfs_quota / (double)cfs_period\<close>, lowered to
  \<open>nprocs\<close>, which as an \<open>int\<close> is converted without rounding.\<close>

definition exact_cpu_count :: "host_env \<Rightarrow> rat" where
  "exact_cpu_count e =
     (case cfs_quota e of None \<Rightarrow> 0 | Some quota \<Rightarrow>
     (case cfs_period e of None \<Rightarrow> 0 | Some period \<Rightarrow>
        if quota \<le> 0 \<or> period \<le> 0 then 0
        else
          (let rv = round_double (round_double (of_int quota) / round_double (of_int period));
               nprocs = get_nprocs e
           in if rv > of_int nprocs then of_int nprocs else rv)))"

section \<open>Reading the host table\<close>

subsection \<open>The sscanf calls\<close>

definition isspace :: "char \<Rightarrow> bool" where
  "isspace c = (c \<in> set [CHR '' '', CHR 0x09, CHR 0x0A, CHR 0x0B, CHR 0x0C, CHR 0x0D])"

definition isdigit :: "char \<Rightarrow> bool" where
  "isdigit c = (48 \<le> (of_char c :: nat) \<and> (of_char c :: nat) \<le> 57)"

definition dec_value :: "string \<Rightarrow> int" where
  "dec_value ds = fold (\<lambda>c n. 10 * n + (of_char c - 48)) ds 0"

text \<open>\<open>sscanf(line, "cpu%9[^ ]", cpu_char)\<close>: the literal prefix, then between one
  and nine characters other than a blank. \<open>None\<close> is a return value other than 1.\<close>

definition scan_cpu_label :: "string \<Rightarrow> string option" where
  "scan_cpu_label line =
     (if take 3 line = ''cpu''
      then (let s = takeWhile (\<lambda>c. c \<noteq> CHR '' '') (take 9 (drop 3 line))
            in if s = [] then None else Some s)
      else None)"

text \<open>An optional sign in front of a number.\<close>

definition scan_sign :: "string \<Rightarrow> bool \<times> string" where
  "scan_sign s =
     (case s of
        [] \<Rightarrow> (False, s)
      | c # r \<Rightarrow> if c = CHR ''-'' then (True, r) else if c = CHR ''+'' then (False, r) else (False, s))"

text \<open>\<open>sscanf(cpu_char, "%d", &physcpu)\<close>. The label has at most nine characters, so
  the number fits an \<open>int\<close>.\<close>

definition scan_int :: "string \<Rightarrow> int option" where
  "scan_int s =
     (case scan_sign (dropWhile isspace s) of (neg, r) \<Rightarrow>
        (let ds = takeWhile isdigit r
         in if ds = [] then None
            else Some (if neg then - dec_value ds else dec_value ds)))"

text \<open>One \<open>%lu\<close> conversion: as \<open>strtoul\<close> does, a value that does not fit gives
  \<open>ULONG_MAX\<close> and a minus sign negates in the unsigned type.\<close>

definition conv_ulong :: "bool \<Rightarrow> string \<Rightarrow> u64" where
  "conv_ulong neg ds =
     (let v = dec_value ds
      in if v \<ge> 2 ^ 64 then - 1 else if neg then - word_of_int v else word_of_int v)"

fun scan_ulongs :: "nat \<Rightarrow> string \<Rightarrow> u64 list" where
  "scan_ulongs 0 s = []"
| "scan_ulongs (Suc n) s =
     (case scan_sign (dropWhile isspace s) of (neg, r) \<Rightarrow>
        (let ds = takeWhile isdigit r
         in if ds = [] then []
            else conv_ulong neg ds # scan_ulongs n (dropWhile isdigit r)))"

text \<open>\<open>sscanf(line, "%*s %lu %lu %lu %lu %lu %lu %lu %lu %lu %lu", ...)\<close>: the values
  converted, in order; the return value is their number.\<close>

definition scan_fields :: "string \<Rightarrow> u64 list" where
  "scan_fields line =
     (let s = dropWhile isspace line
      in if s = [] then []
         else scan_ulongs 10 (dropWhile (\<lambda>c. \<not> isspace c) s))"

subsection \<open>The loop over the cpuN lines\<close>

text \<open>What can keep a call from returning normally: an access outside of an array, the
  use of a node that the pruning has freed, a line buffer that was never filled, and a
  \<open>pthread_mutex_lock\<close> on a mutex that is never released.\<close>

datatype failure = Out_of_bounds | Use_after_free | No_line | Blocked

definition set_online :: "cpuacct_usage list \<Rightarrow> int \<Rightarrow> bool \<Rightarrow> cpuacct_usage list option" where
  "set_online a i b =
     (if 0 \<le> i \<and> i < int (length a) then Some (a[nat i := (a ! nat i)\<lparr>online := b\<rparr>])
      else None)"

fun set_offline :: "cpuacct_usage list \<Rightarrow> int list \<Rightarrow> cpuacct_usage list option" where
  "set_offline a [] = Some a"
| "set_offline a (i # js) =
     (case set_online a i False of None \<Rightarrow> None | Some a' \<Rightarrow> set_offline a' js)"

text \<open>The variables of the loop: the array \<open>cg_cpu_usage\<close>, \<open>curcpu\<close>, \<open>cpu_cnt\<close>,
  the line buffer (\<open>None\<close> before the first \<open>getline\<close>) and the calls of
  \<open>lxcfs_error\<close>, each with the CPU and the two times it reports.\<close>

record parse_state =
  p_usage :: "cpuacct_usage list"
  p_curcpu :: int
  p_cpu_cnt :: int
  p_line :: "string option"
  p_log :: "(int \<times> u64 \<times> u64) list"

text \<open>The body of the loop from the second \<open>sscanf\<close> on, for a line with the label
  \<open>cpu_char\<close>. Every path through it ends the iteration.\<close>

definition stat_line_body :: "(int \<Rightarrow> bool) \<Rightarrow> int \<Rightarrow> string \<Rightarrow> string \<Rightarrow> parse_state
    \<Rightarrow> failure + parse_state" where
  "stat_line_body cpuset cg_cpu_usage_size line cpu_char st =
     (case scan_int cpu_char of
        None \<Rightarrow> Inr st
      | Some physcpu \<Rightarrow>
          if physcpu \<ge> cg_cpu_usage_size then Inr st
          else
            (let curcpu = p_curcpu st + 1;
                 cpu_cnt = p_cpu_cnt st + 1
             in if \<not> cpuset physcpu
                then (case set_offline (p_usage st) [curcpu..physcpu] of
                        None \<Rightarrow> Inl Out_of_bounds
                      | Some a \<Rightarrow> Inr (st\<lparr>p_usage := a, p_curcpu := curcpu, p_cpu_cnt := cpu_cnt\<rparr>))
                else
                  (case (if curcpu < physcpu
                         then set_offline (p_usage st) [curcpu..physcpu - 1]
                         else Some (p_usage st)) of
                     None \<Rightarrow> Inl Out_of_bounds
                   | Some a \<Rightarrow>
                       (let curcpu = (if curcpu < physcpu then physcpu else curcpu)
                        in case set_online a curcpu True of
                             None \<Rightarrow> Inl Out_of_bounds
                           | Some a \<Rightarrow>
                               (let st = st\<lparr>p_usage := a, p_curcpu := curcpu, p_cpu_cnt := cpu_cnt\<rparr>;
                                    fs = scan_fields line
                                in if length fs \<noteq> 10 then Inr st
                                   else
                                     (let all_used = fs ! 0 + fs ! 1 + fs ! 2 + fs ! 4 + fs ! 5
                                                     + fs ! 6 + fs ! 7 + fs ! 8 + fs ! 9;
                                          cg_used = user (a ! nat curcpu) + system (a ! nat curcpu)
                                      in if all_used \<ge> cg_used
                                         then Inr (st\<lparr>p_usage := a[nat curcpu := (a ! nat curcpu)
                                                 \<lparr>idle := fs ! 3 + (all_used - cg_used)\<rparr>]\<rparr>)
                                         else Inr (st\<lparr>p_usage := a[nat curcpu := (a ! nat curcpu)
                                                 \<lparr>idle := fs ! 3\<rparr>],
                                               p_log := p_log st @ [(curcpu, all_used, cg_used)]\<rparr>)))))))"

text \<open>The loop: it returns the state and the lines that \<open>getline\<close> has not read yet.
  A line without the label ends the loop and stays in the line buffer.\<close>

fun read_cpu_lines :: "(int \<Rightarrow> bool) \<Rightarrow> int \<Rightarrow> string list \<Rightarrow> parse_state
    \<Rightarrow> failure + (parse_state \<times> string list)" where
  "read_cpu_lines cpuset cg_cpu_usage_size [] st = Inr (st, [])"
| "read_cpu_lines cpuset cg_cpu_usage_size (line # f) st =
     (let st = st\<lparr>p_line := Some line\<rparr>
      in if length line = 0 then read_cpu_lines cpuset cg_cpu_usage_size f st
         else
           (case scan_cpu_label line of
              None \<Rightarrow> Inr (st, f)
            | Some cpu_char \<Rightarrow>
                (case stat_line_body cpuset cg_cpu_usage_size line cpu_char st of
                   Inl e \<Rightarrow> Inl e
                 | Inr st' \<Rightarrow> read_cpu_lines cpuset cg_cpu_usage_size f st')))"


section \<open>The history of the cgroups\<close>

text \<open>\<open>struct cg_proc_stat_head\<close>: the chain of the nodes of a bucket, in the order
  of their \<open>next\<close> pointers, and the time of the last pruning. Each function below
  releases the lock of the bucket that it takes before it returns; one thread is
  modelled, and this lock is left out.\<close>

record cg_proc_stat_head =
  chain :: "cg_proc_stat list"
  lastcheck :: int

definition CPUVIEW_HASH_SIZE :: nat where
  "CPUVIEW_HASH_SIZE = 100"

definition PROC_STAT_PRUNE_INTERVAL :: int where
  "PROC_STAT_PRUNE_INTERVAL = 10"

text \<open>What the allocations and initialisations of one read give, one field for each
  place of the code: in \<open>new_proc_stat_node\<close> the node, its name, its two arrays and
  its mutex; in \<open>expand_proc_stat_node\<close> the two new arrays; in
  \<open>cpuview_proc_stat\<close> the array \<open>diff\<close>.\<close>

record allocs =
  a_node :: bool
  a_cg :: bool
  a_usage :: malloc_result
  a_view :: malloc_result
  a_mutex :: bool
  a_new_usage :: malloc_result
  a_new_view :: malloc_result
  a_diff :: malloc_result

definition new_proc_stat_node :: "allocs \<Rightarrow> cpuacct_usage list \<Rightarrow> int \<Rightarrow> string
    \<Rightarrow> cg_proc_stat option" where
  "new_proc_stat_node al usage_in cpu_cnt_in cg_in =
     (if \<not> a_node al then None
      else if \<not> a_cg al then None
      else (case a_usage al of None \<Rightarrow> None | Some gu \<Rightarrow>
           (case a_view al of None \<Rightarrow> None | Some gv \<Rightarrow>
              if \<not> a_mutex al then None
              else Some \<lparr>cg = cg_in,
                         usage = memcpy_usage (block gu cpu_cnt_in) usage_in cpu_cnt_in,
                         view = zero_view (block gv cpu_cnt_in) cpu_cnt_in,
                         cpu_count = cpu_cnt_in,
                         locked = False\<rparr>)))"

definition bucket :: "host_env \<Rightarrow> string \<Rightarrow> nat" where
  "bucket e cg_in = calc_hash e cg_in mod CPUVIEW_HASH_SIZE"

text \<open>\<open>add_proc_stat_node\<close> returns the node that is in the chain afterwards: the new
  one at the end of the chain, or the one of the same name that was there.\<close>

definition add_proc_stat_node :: "host_env \<Rightarrow> cg_proc_stat_head list \<Rightarrow> cg_proc_stat
    \<Rightarrow> cg_proc_stat_head list \<times> cg_proc_stat" where
  "add_proc_stat_node e hist new_node =
     (let h = bucket e (cg new_node); head = hist ! h
      in case find (\<lambda>n. cg n = cg new_node) (chain head) of
           Some node \<Rightarrow> (hist, node)
         | None \<Rightarrow> (hist[h := head\<lparr>chain := chain head @ [new_node]\<rparr>], new_node))"

definition prune_proc_stat_list :: "host_env \<Rightarrow> cg_proc_stat list \<Rightarrow> cg_proc_stat list" where
  "prune_proc_stat_list e nodes = filter (\<lambda>n. cg_exists e (cg n)) nodes"

text \<open>The loop of \<open>prune_proc_stat_history\<close> returns at the first bucket that was
  checked less than the interval ago.\<close>

fun prune_proc_stat_history :: "host_env \<Rightarrow> cg_proc_stat_head list \<Rightarrow> cg_proc_stat_head list" where
  "prune_proc_stat_history e [] = []"
| "prune_proc_stat_history e (head # heads) =
     (if lastcheck head + PROC_STAT_PRUNE_INTERVAL > now e then head # heads
      else (if chain head \<noteq> []
            then head\<lparr>chain := prune_proc_stat_list e (chain head), lastcheck := now e\<rparr>
            else head) # prune_proc_stat_history e heads)"

definition find_proc_stat_node :: "host_env \<Rightarrow> cg_proc_stat_head list \<Rightarrow> nat \<Rightarrow> string
    \<Rightarrow> cg_proc_stat_head list \<times> cg_proc_stat option" where
  "find_proc_stat_node e hist h cg_in =
     (if chain (hist ! h) = [] then (hist, None)
      else (prune_proc_stat_history e hist, find (\<lambda>n. cg n = cg_in) (chain (hist ! h))))"

text \<open>The nodes are values here and pointers in the code: a change of the node that a
  pointer refers to is written back into its chain.\<close>

definition put_node :: "host_env \<Rightarrow> cg_proc_stat_head list \<Rightarrow> cg_proc_stat
    \<Rightarrow> cg_proc_stat_head list" where
  "put_node e hist node =
     (let h = bucket e (cg node); head = hist ! h
      in hist[h := head\<lparr>chain := map (\<lambda>n. if cg n = cg node then node else n) (chain head)\<rparr>])"

definition get_node :: "host_env \<Rightarrow> cg_proc_stat_head list \<Rightarrow> string \<Rightarrow> cg_proc_stat option" where
  "get_node e hist cg_in = find (\<lambda>n. cg n = cg_in) (chain (hist ! bucket e cg_in))"

text \<open>The second half of \<open>find_or_create_proc_stat_node\<close>: the mutex is taken, and the
  arrays are expanded when the host has more CPUs than the node. When the expansion
  fails the mutex is released and the null pointer returned.\<close>

definition lock_and_expand :: "host_env \<Rightarrow> allocs \<Rightarrow> cg_proc_stat_head list \<Rightarrow> cg_proc_stat
    \<Rightarrow> int \<Rightarrow> failure + (cg_proc_stat_head list \<times> cg_proc_stat option)" where
  "lock_and_expand e al hist node cpu_cnt_in =
     (if locked node then Inl Blocked
      else
        (let node = node\<lparr>locked := True\<rparr>
         in if cpu_count node < cpu_cnt_in
            then (case expand_proc_stat_node (a_new_usage al) (a_new_view al) node cpu_cnt_in of
                    None \<Rightarrow> Inr (put_node e hist (node\<lparr>locked := False\<rparr>), None)
                  | Some node' \<Rightarrow> Inr (put_node e hist node', Some node'))
            else Inr (put_node e hist node, Some node)))"

definition find_or_create_proc_stat_node :: "host_env \<Rightarrow> allocs \<Rightarrow> cg_proc_stat_head list
    \<Rightarrow> cpuacct_usage list \<Rightarrow> int \<Rightarrow> string
    \<Rightarrow> failure + (cg_proc_stat_head list \<times> cg_proc_stat option)" where
  "find_or_create_proc_stat_node e al hist usage_in cpu_cnt_in cg_in =
     (case find_proc_stat_node e hist (bucket e cg_in) cg_in of
        (hist, None) \<Rightarrow>
          (case new_proc_stat_node al usage_in cpu_cnt_in cg_in of
             None \<Rightarrow> Inr (hist, None)
           | Some new_node \<Rightarrow>
               (case add_proc_stat_node e hist new_node of
                  (hist, node) \<Rightarrow> lock_and_expand e al hist node cpu_cnt_in))
      | (hist, Some node) \<Rightarrow>
          if get_node e hist cg_in = None then Inl Use_after_free
          else lock_and_expand e al hist node cpu_cnt_in)"

section \<open>cpuview_proc_stat\<close>

subsection \<open>Reset, deltas and surplus\<close>

text \<open>The loop that looks at the first online CPU and resets the node when the user
  time of the cgroup on it is lower than the stored one.\<close>

definition reset_if_lower :: "cg_proc_stat \<Rightarrow> cpuacct_usage list \<Rightarrow> int \<Rightarrow> cg_proc_stat" where
  "reset_if_lower stat_node cg_cpu_usage nprocs =
     (case find (\<lambda>curcpu. online (cg_cpu_usage ! curcpu)) [0..<nat nprocs] of
        None \<Rightarrow> stat_node
      | Some curcpu \<Rightarrow>
          if user (cg_cpu_usage ! curcpu) < user (usage stat_node ! curcpu)
          then reset_proc_stat_node stat_node cg_cpu_usage nprocs
          else stat_node)"

text \<open>The loop that adds the deltas to the usage of the node and collects the user
  and system time of the CPUs beyond the first \<open>max_cpus\<close> online ones.\<close>

record surplus_state =
  s_usage :: "cpuacct_usage list"
  s_i :: int
  s_user_surplus :: u64
  s_system_surplus :: u64

definition surplus_step :: "cpuacct_usage list \<Rightarrow> cpuacct_usage list \<Rightarrow> int \<Rightarrow> nat
    \<Rightarrow> surplus_state \<Rightarrow> surplus_state" where
  "surplus_step cg_cpu_usage diff max_cpus curcpu st =
     (let us = (s_usage st)[curcpu := (s_usage st ! curcpu)\<lparr>online := online (cg_cpu_usage ! curcpu)\<rparr>];
          st = st\<lparr>s_usage := us\<rparr>
      in if \<not> online (us ! curcpu) then st
         else
           (let i = s_i st + 1;
                us = us[curcpu := (us ! curcpu)\<lparr>
                       user := user (us ! curcpu) + user (diff ! curcpu),
                       system := system (us ! curcpu) + system (diff ! curcpu),
                       idle := idle (us ! curcpu) + idle (diff ! curcpu)\<rparr>];
                st = st\<lparr>s_usage := us, s_i := i\<rparr>
            in if max_cpus > 0 \<and> i \<ge> max_cpus
               then st\<lparr>s_user_surplus := s_user_surplus st + user (diff ! curcpu),
                       s_system_surplus := s_system_surplus st + system (diff ! curcpu)\<rparr>
               else st))"

subsection \<open>The visible CPUs\<close>

text \<open>The body of the redistribution loop for a visible CPU with the delta \<open>d\<close>:
  user time is drawn from the user surplus, then system time from the system surplus,
  each only while user plus system are below the threshold.\<close>

definition credit_cpu :: "u64 \<Rightarrow> u64 \<times> u64 \<times> cpuacct_usage \<Rightarrow> u64 \<times> u64 \<times> cpuacct_usage" where
  "credit_cpu threshold sd =
     (case sd of (user_surplus, system_surplus, d) \<Rightarrow>
        if user d + system d \<ge> threshold then (user_surplus, system_surplus, d)
        else
          (case add_cpu_usage user_surplus d Counter_user threshold of
             (user_surplus, d) \<Rightarrow>
               if user d + system d \<ge> threshold then (user_surplus, system_surplus, d)
               else
                 (case add_cpu_usage system_surplus d Counter_system threshold of
                    (system_surplus, d) \<Rightarrow> (user_surplus, system_surplus, d))))"

record redist_state =
  r_diff :: "cpuacct_usage list"
  r_i :: int
  r_user_surplus :: u64
  r_system_surplus :: u64

fun redistribute :: "cpuacct_usage list \<Rightarrow> int \<Rightarrow> u64 \<Rightarrow> nat list \<Rightarrow> redist_state
    \<Rightarrow> redist_state" where
  "redistribute us max_cpus threshold [] st = st"
| "redistribute us max_cpus threshold (curcpu # cs) st =
     (if \<not> online (us ! curcpu) then redistribute us max_cpus threshold cs st
      else
        (let st = st\<lparr>r_i := r_i st + 1\<rparr>
         in if r_i st = max_cpus then st
            else
              (case credit_cpu threshold
                      (r_user_surplus st, r_system_surplus st, r_diff st ! curcpu) of
                 (user_surplus, system_surplus, d) \<Rightarrow>
                   redistribute us max_cpus threshold cs
                     (st\<lparr>r_diff := (r_diff st)[curcpu := d],
                         r_user_surplus := user_surplus,
                         r_system_surplus := system_surplus\<rparr>))))"

text \<open>
  The redistribution in the words of the specification (steps 4 and 5). The visible
  CPUs are the first \<open>max_cpus\<close> online CPUs in index order. For each of them in turn:
  a CPU with \<open>diff.user + diff.system \<ge> threshold\<close> is saturated and skipped; else the
  least of the user surplus, the headroom \<open>threshold - diff.user - diff.system\<close> and
  \<open>diff.idle\<close> is drawn from the user surplus, added to \<open>diff.user\<close> and taken from
  \<open>diff.idle\<close>; if the CPU is still below the threshold, the same is done with the
  system surplus and \<open>diff.system\<close>. These two definitions are what the loop of the code
  is compared with.
\<close>

definition claimed_credit :: "u64 \<Rightarrow> u64 \<times> u64 \<times> cpuacct_usage \<Rightarrow> u64 \<times> u64 \<times> cpuacct_usage" where
  "claimed_credit threshold sd =
     (case sd of (user_surplus, system_surplus, d) \<Rightarrow>
        if user d + system d \<ge> threshold then (user_surplus, system_surplus, d)
        else
          (let t = min user_surplus (min (threshold - user d - system d) (idle d));
               d = d\<lparr>user := user d + t, idle := idle d - t\<rparr>;
               user_surplus = user_surplus - t
           in if user d + system d \<ge> threshold then (user_surplus, system_surplus, d)
              else
                (let t = min system_surplus (min (threshold - user d - system d) (idle d))
                 in (user_surplus, system_surplus - t,
                     d\<lparr>system := system d + t, idle := idle d - t\<rparr>))))"

fun claimed_redistribution :: "u64 \<Rightarrow> nat list \<Rightarrow> cpuacct_usage list \<times> u64 \<times> u64
    \<Rightarrow> cpuacct_usage list \<times> u64 \<times> u64" where
  "claimed_redistribution threshold [] s = s"
| "claimed_redistribution threshold (i # V) (diff, user_surplus, system_surplus) =
     (case claimed_credit threshold (user_surplus, system_surplus, diff ! i) of
        (user_surplus, system_surplus, d) \<Rightarrow>
          claimed_redistribution threshold V (diff[i := d], user_surplus, system_surplus))"

text \<open>The loop that adds the deltas of the visible CPUs to the view, sums the view up
  and looks for the CPU with the largest idle delta.\<close>

record accum_state =
  c_view :: "cpuacct_usage list"
  c_i :: int
  c_user_sum :: u64
  c_system_sum :: u64
  c_idle_sum :: u64
  c_diff_user :: u64
  c_diff_system :: u64
  c_diff_idle :: u64
  c_max_diff_idle :: u64
  c_max_diff_idle_index :: nat

text \<open>The three additions \<open>view[curcpu].x += diff[curcpu].x\<close> of that loop, as the
  lemmas about it state them.\<close>

definition add_counters :: "cpuacct_usage \<Rightarrow> cpuacct_usage \<Rightarrow> cpuacct_usage" where
  "add_counters v x = v\<lparr>user := user v + user x, system := system v + system x,
                         idle := idle v + idle x\<rparr>"

definition accumulate_cpu :: "cpuacct_usage \<Rightarrow> nat \<Rightarrow> accum_state \<Rightarrow> accum_state" where
  "accumulate_cpu d curcpu st =
     (let v = c_view st ! curcpu;
          v = v\<lparr>user := user v + user d, system := system v + system d, idle := idle v + idle d\<rparr>;
          st = st\<lparr>c_view := (c_view st)[curcpu := v],
                  c_user_sum := c_user_sum st + user v,
                  c_system_sum := c_system_sum st + system v,
                  c_idle_sum := c_idle_sum st + idle v,
                  c_diff_user := c_diff_user st + user d,
                  c_diff_system := c_diff_system st + system d,
                  c_diff_idle := c_diff_idle st + idle d\<rparr>
      in if idle d > c_max_diff_idle st
         then st\<lparr>c_max_diff_idle := idle d, c_max_diff_idle_index := curcpu\<rparr>
         else st)"

fun accumulate :: "cpuacct_usage list \<Rightarrow> cpuacct_usage list \<Rightarrow> int \<Rightarrow> nat list \<Rightarrow> accum_state
    \<Rightarrow> accum_state" where
  "accumulate us diff max_cpus [] st = st"
| "accumulate us diff max_cpus (curcpu # cs) st =
     (if \<not> online (us ! curcpu) then accumulate us diff max_cpus cs st
      else
        (let st = st\<lparr>c_i := c_i st + 1\<rparr>
         in if c_i st = max_cpus then st
            else accumulate us diff max_cpus cs (accumulate_cpu (diff ! curcpu) curcpu st)))"

text \<open>The revision for a quota that is not a whole number of CPUs. The C expression is
  \<open>(unsigned long)((double)ticks * (1 - exact_cpus / (double)max_cpus))\<close>: the tick sum
  is converted to \<open>double\<close>, the quotient, the difference and the product are rounded
  each, and the conversion to \<open>unsigned long\<close> drops the fraction. The revision is
  reached with \<open>exact_cpus < max_cpus\<close> only, so that the product is not negative; it
  is below \<open>2 ^ 64\<close> unless the tick sum is within 1024 of \<open>2 ^ 64\<close> and the
  difference rounds to 1, where C leaves the conversion undefined and the model wraps
  around.\<close>

definition partial_delta :: "u64 \<Rightarrow> rat \<Rightarrow> int \<Rightarrow> u64" where
  "partial_delta ticks exact_cpus max_cpus =
     word_of_int \<lfloor>round_double (round_double (of_nat (unat ticks))
        * round_double (1 - round_double (exact_cpus / of_int max_cpus)))\<rfloor>"

definition sub_or_zero :: "u64 \<Rightarrow> u64 \<Rightarrow> u64" where
  "sub_or_zero x delta = (if x > delta then x - delta else 0)"

definition revise_partial :: "rat \<Rightarrow> int \<Rightarrow> accum_state \<Rightarrow> accum_state" where
  "revise_partial exact_cpus max_cpus st =
     (if exact_cpus < of_int max_cpus
      then
        (let delta = partial_delta (c_diff_user st + c_diff_system st + c_diff_idle st)
                       exact_cpus max_cpus;
             curcpu = c_max_diff_idle_index st;
             v = c_view st ! curcpu
         in st\<lparr>c_idle_sum := sub_or_zero (c_idle_sum st) delta,
               c_view := (c_view st)[curcpu := v\<lparr>idle := sub_or_zero (idle v) delta\<rparr>]\<rparr>)
      else st)"

text \<open>Without a quota the view of each online CPU is its usage.\<close>

record plain_state =
  n_view :: "cpuacct_usage list"
  n_user_sum :: u64
  n_system_sum :: u64
  n_idle_sum :: u64

definition plain_step :: "cpuacct_usage list \<Rightarrow> nat \<Rightarrow> plain_state \<Rightarrow> plain_state" where
  "plain_step us curcpu st =
     (if \<not> online (us ! curcpu) then st
      else
        (let v = (n_view st ! curcpu)\<lparr>user := user (us ! curcpu),
                    system := system (us ! curcpu), idle := idle (us ! curcpu)\<rparr>
         in st\<lparr>n_view := (n_view st)[curcpu := v],
               n_user_sum := n_user_sum st + user v,
               n_system_sum := n_system_sum st + system v,
               n_idle_sum := n_idle_sum st + idle v\<rparr>))"

subsection \<open>From the locked node to the sums of the first line\<close>

text \<open>The part of \<open>cpuview_proc_stat\<close> between the allocation of \<open>diff\<close> and the
  rendering. It changes the arrays of the node and gives the three sums of the
  \<open>cpu\<close> line.\<close>

record view_sums =
  user_sum :: u64
  system_sum :: u64
  idle_sum :: u64

definition update_view :: "host_env \<Rightarrow> cg_proc_stat \<Rightarrow> cpuacct_usage list \<Rightarrow> cpuacct_usage list
    \<Rightarrow> int \<Rightarrow> int \<Rightarrow> int \<Rightarrow> cg_proc_stat \<times> view_sums" where
  "update_view e stat_node cg_cpu_usage diff0 nprocs max_cpus cpu_cnt =
     (let stat_node = reset_if_lower stat_node cg_cpu_usage nprocs
      in case diff_cpu_usage (usage stat_node) cg_cpu_usage diff0 nprocs of
           (diff, total_sum) \<Rightarrow>
             (let ss = fold (surplus_step cg_cpu_usage diff max_cpus) [0..<nat nprocs]
                         \<lparr>s_usage = usage stat_node, s_i = - 1,
                          s_user_surplus = 0, s_system_surplus = 0\<rparr>;
                  stat_node = stat_node\<lparr>usage := s_usage ss\<rparr>
              in if max_cpus > 0
                 then
                   (let threshold = total_sum div word_of_int cpu_cnt * word_of_int max_cpus;
                        rs = redistribute (usage stat_node) max_cpus threshold [0..<nat nprocs]
                               \<lparr>r_diff = diff, r_i = - 1,
                                r_user_surplus = s_user_surplus ss,
                                r_system_surplus = s_system_surplus ss\<rparr>;
                        cs = accumulate (usage stat_node) (r_diff rs) max_cpus [0..<nat nprocs]
                               \<lparr>c_view = view stat_node, c_i = - 1,
                                c_user_sum = 0, c_system_sum = 0, c_idle_sum = 0,
                                c_diff_user = 0, c_diff_system = 0, c_diff_idle = 0,
                                c_max_diff_idle = 0, c_max_diff_idle_index = 0\<rparr>;
                        cs = revise_partial (exact_cpu_count e) max_cpus cs
                    in (stat_node\<lparr>view := c_view cs\<rparr>,
                        \<lparr>user_sum = c_user_sum cs, system_sum = c_system_sum cs,
                         idle_sum = c_idle_sum cs\<rparr>))
                 else
                   (let ns = fold (plain_step (usage stat_node)) [0..<nat nprocs]
                               \<lparr>n_view = view stat_node, n_user_sum = 0,
                                n_system_sum = 0, n_idle_sum = 0\<rparr>
                    in (stat_node\<lparr>view := n_view ns\<rparr>,
                        \<lparr>user_sum = n_user_sum ns, system_sum = n_system_sum ns,
                         idle_sum = n_idle_sum ns\<rparr>))))"

text \<open>The array \<open>diff\<close> of a read as the redistribution loop leaves it: the deltas
  that the next loop adds to the view of the visible CPUs. This is the same code as
  the beginning of \<open>update_view\<close>, with \<open>diff\<close> as its result.\<close>

definition redistributed_diff :: "cg_proc_stat \<Rightarrow> cpuacct_usage list \<Rightarrow> cpuacct_usage list
    \<Rightarrow> int \<Rightarrow> int \<Rightarrow> int \<Rightarrow> cpuacct_usage list" where
  "redistributed_diff stat_node cg_cpu_usage diff0 nprocs max_cpus cpu_cnt =
     (let stat_node = reset_if_lower stat_node cg_cpu_usage nprocs
      in case diff_cpu_usage (usage stat_node) cg_cpu_usage diff0 nprocs of
           (diff, total_sum) \<Rightarrow>
             (let ss = fold (surplus_step cg_cpu_usage diff max_cpus) [0..<nat nprocs]
                         \<lparr>s_usage = usage stat_node, s_i = - 1,
                          s_user_surplus = 0, s_system_surplus = 0\<rparr>;
                  threshold = total_sum div word_of_int cpu_cnt * word_of_int max_cpus
              in r_diff (redistribute (s_usage ss) max_cpus threshold [0..<nat nprocs]
                           \<lparr>r_diff = diff, r_i = - 1,
                            r_user_surplus = s_user_surplus ss,
                            r_system_surplus = s_system_surplus ss\<rparr>)))"

subsection \<open>Rendering\<close>

text \<open>The conversions \<open>%lu\<close> and \<open>%d\<close> of \<open>snprintf\<close>.\<close>

fun show_nat :: "nat \<Rightarrow> string" where
  "show_nat n =
     (if n < 10 then [char_of (48 + n)]
      else show_nat (n div 10) @ [char_of (48 + n mod 10)])"

declare show_nat.simps [simp del]

definition show_lu :: "u64 \<Rightarrow> string" where
  "show_lu x = show_nat (unat x)"

definition show_d :: "int \<Rightarrow> string" where
  "show_d i = (if i < 0 then CHR ''-'' # show_nat (nat (- i)) else show_nat (nat i))"

text \<open>\<open>"cpu  %lu 0 %lu %lu 0 0 0 0 0 0\n"\<close> and \<open>"cpu%d %lu 0 %lu %lu 0 0 0 0 0 0\n"\<close>.\<close>

definition cpu_all_line :: "u64 \<Rightarrow> u64 \<Rightarrow> u64 \<Rightarrow> string" where
  "cpu_all_line us sy idl =
     ''cpu  '' @ show_lu us @ '' 0 '' @ show_lu sy @ '' '' @ show_lu idl
       @ '' 0 0 0 0 0 0'' @ [CHR 0x0A]"

definition cpu_line :: "int \<Rightarrow> u64 \<Rightarrow> u64 \<Rightarrow> u64 \<Rightarrow> string" where
  "cpu_line i us sy idl =
     ''cpu'' @ show_d i @ '' '' @ show_lu us @ '' 0 '' @ show_lu sy @ '' '' @ show_lu idl
       @ '' 0 0 0 0 0 0'' @ [CHR 0x0A]"

text \<open>The cache: what has been written, the space that is left and \<open>total_len\<close>.\<close>

record out_state =
  o_buf :: string
  o_size :: nat
  o_total :: nat

text \<open>One \<open>snprintf\<close> with the checks that follow it: \<open>None\<close> is the truncated write,
  after which the function returns 0.\<close>

definition emit :: "string \<Rightarrow> out_state \<Rightarrow> out_state option" where
  "emit s st =
     (if length s \<ge> o_size st then None
      else Some \<lparr>o_buf = o_buf st @ s, o_size = o_size st - length s,
                 o_total = o_total st + length s\<rparr>)"

fun render_cpus :: "cpuacct_usage list \<Rightarrow> cpuacct_usage list \<Rightarrow> int \<Rightarrow> nat list \<Rightarrow> int
    \<Rightarrow> out_state \<Rightarrow> out_state option" where
  "render_cpus us vw max_cpus [] i st = Some st"
| "render_cpus us vw max_cpus (curcpu # cs) i st =
     (if \<not> online (us ! curcpu) then render_cpus us vw max_cpus cs i st
      else
        (let i = i + 1
         in if max_cpus > 0 \<and> i = max_cpus then Some st
            else
              (case emit (cpu_line i (user (vw ! curcpu)) (system (vw ! curcpu))
                            (idle (vw ! curcpu))) st of
                 None \<Rightarrow> None
               | Some st \<Rightarrow> render_cpus us vw max_cpus cs i st)))"

fun emit_lines :: "string list \<Rightarrow> out_state \<Rightarrow> out_state option" where
  "emit_lines [] st = Some st"
| "emit_lines (line # f) st =
     (case emit line st of None \<Rightarrow> None | Some st \<Rightarrow> emit_lines f st)"

text \<open>The rendering: the \<open>cpu\<close> line, the lines of the CPUs, the line that ended the
  first loop and the rest of the host table.\<close>

definition render :: "cg_proc_stat \<Rightarrow> view_sums \<Rightarrow> int \<Rightarrow> int \<Rightarrow> string \<Rightarrow> string list \<Rightarrow> nat
    \<Rightarrow> out_state option" where
  "render stat_node tot nprocs max_cpus line f buf_size =
     (case emit (cpu_all_line (user_sum tot) (system_sum tot) (idle_sum tot))
             \<lparr>o_buf = [], o_size = buf_size, o_total = 0\<rparr> of
        None \<Rightarrow> None
      | Some st \<Rightarrow>
          (case render_cpus (usage stat_node) (view stat_node) max_cpus [0..<nat nprocs] (- 1) st of
             None \<Rightarrow> None
           | Some st \<Rightarrow>
               (case emit line st of
                  None \<Rightarrow> None
                | Some st \<Rightarrow> emit_lines f st)))"


definition online_cpus :: "cpuacct_usage list \<Rightarrow> int \<Rightarrow> nat list" where
  "online_cpus us nprocs = filter (\<lambda>c. online (us ! c)) [0..<nat nprocs]"

text \<open>The visible CPUs as the claim has them: the first \<open>max_cpus\<close> online CPUs.\<close>

definition claimed_cpus :: "cpuacct_usage list \<Rightarrow> int \<Rightarrow> int \<Rightarrow> nat list" where
  "claimed_cpus us nprocs max_cpus = take (nat max_cpus) (online_cpus us nprocs)"



subsection \<open>The whole read\<close>

text \<open>The CPU count that the read works with: \<open>get_nprocs_conf\<close>, lowered to the
  size of the array of the caller.\<close>

definition working_nprocs :: "host_env \<Rightarrow> int \<Rightarrow> int" where
  "working_nprocs e cg_cpu_usage_size =
     (let nprocs = get_nprocs_conf e
      in if cg_cpu_usage_size < nprocs then cg_cpu_usage_size else nprocs)"

text \<open>What a read that returns leaves behind: the return value, the text in the cache
  (for a successful read), the history, the array of the caller and the errors
  logged about the idle time.\<close>

record read_result =
  ret :: int
  out :: string
  history :: "cg_proc_stat_head list"
  cg_usage :: "cpuacct_usage list"
  idle_errors :: "(int \<times> u64 \<times> u64) list"

definition cpuview_proc_stat :: "host_env \<Rightarrow> allocs \<Rightarrow> cg_proc_stat_head list \<Rightarrow> string
    \<Rightarrow> (int \<Rightarrow> bool) \<Rightarrow> cpuacct_usage list \<Rightarrow> int \<Rightarrow> string list \<Rightarrow> nat
    \<Rightarrow> failure + read_result" where
  "cpuview_proc_stat e al hist cg_in cpuset cg_cpu_usage cg_cpu_usage_size f buf_size =
     (let max_cpus = max_cpu_count e;
          nprocs = working_nprocs e cg_cpu_usage_size
      in case read_cpu_lines cpuset cg_cpu_usage_size f
                \<lparr>p_usage = cg_cpu_usage, p_curcpu = - 1, p_cpu_cnt = 0,
                 p_line = None, p_log = []\<rparr> of
           Inl x \<Rightarrow> Inl x
         | Inr (ps, f) \<Rightarrow>
             (let cpu_cnt = p_cpu_cnt ps;
                  max_cpus = (if max_cpus > cpu_cnt then cpu_cnt else max_cpus)
              in case find_or_create_proc_stat_node e al hist (p_usage ps) nprocs cg_in of
                   Inl x \<Rightarrow> Inl x
                 | Inr (hist, None) \<Rightarrow>
                     Inr \<lparr>ret = 0, out = [], history = hist, cg_usage = p_usage ps,
                          idle_errors = p_log ps\<rparr>
                 | Inr (hist, Some stat_node) \<Rightarrow>
                     (case a_diff al of
                        None \<Rightarrow>
                          Inr \<lparr>ret = 0, out = [], history = hist, cg_usage = p_usage ps,
                               idle_errors = p_log ps\<rparr>
                      | Some gd \<Rightarrow>
                          (case update_view e stat_node (p_usage ps) (block gd nprocs)
                                  nprocs max_cpus cpu_cnt of
                             (stat_node, tot) \<Rightarrow>
                               (case p_line ps of
                                  None \<Rightarrow> Inl No_line
                                | Some line \<Rightarrow>
                                    (case render stat_node tot nprocs max_cpus line f buf_size of
                                       None \<Rightarrow>
                                         Inr \<lparr>ret = 0, out = [],
                                              history = put_node e hist stat_node,
                                              cg_usage = p_usage ps,
                                              idle_errors = p_log ps\<rparr>
                                     | Some st \<Rightarrow>
                                         Inr \<lparr>ret = int (o_total st), out = o_buf st,
                                              history = put_node e hist
                                                (stat_node\<lparr>locked := False\<rparr>),
                                              cg_usage = p_usage ps,
                                              idle_errors = p_log ps\<rparr>))))))"

section \<open>Concrete inputs\<close>

text \<open>The values at which the theorems below are instantiated and evaluated.\<close>

definition cnt :: "u64 \<Rightarrow> u64 \<Rightarrow> u64 \<Rightarrow> bool \<Rightarrow> cpuacct_usage" where
  "cnt u s i b = \<lparr>user = u, system = s, idle = i, online = b\<rparr>"

definition fresh :: malloc_result where
  "fresh = Some (\<lambda>i. cnt 7 7 7 False)"

definition node_a3 :: cg_proc_stat where
  "node_a3 = \<lparr>cg = ''/lxc/a'', usage = [cnt 9 8 7 True, cnt 6 5 4 True, cnt 3 2 1 True],
     view = [cnt 9 8 7 True, cnt 6 5 4 True, cnt 3 2 1 True], cpu_count = 3, locked = True\<rparr>"

definition node_a5 :: cg_proc_stat where
  "node_a5 = \<lparr>cg = ''/lxc/a'',
     usage = [cnt 9 8 7 False, cnt 6 5 4 False, cnt 3 2 1 False, cnt 0 0 0 False, cnt 0 0 0 False],
     view = [cnt 9 8 7 False, cnt 6 5 4 False, cnt 3 2 1 False, cnt 0 0 0 False, cnt 0 0 0 False],
     cpu_count = 5, locked = True\<rparr>"

definition node_a2 :: cg_proc_stat where
  "node_a2 = \<lparr>cg = ''/lxc/a'', usage = [cnt 1 1 1 False, cnt 0 0 0 False],
     view = [cnt 0 0 0 False, cnt 0 0 0 False], cpu_count = 2, locked = True\<rparr>"

definition env_overflow :: host_env where
  "env_overflow = \<lparr>cfs_quota = Some 4294967296000, cfs_period = Some 1000,
     cpus_in_cpuset = Some 0, get_nprocs = 4, get_nprocs_conf = 4, now = 0,
     cg_exists = (\<lambda>c. True), calc_hash = (\<lambda>c. 0)\<rparr>"

definition line_cpu0 :: string where
  "line_cpu0 = ''cpu0 100 0 50 200 1 2 3 4 5 6'' @ [CHR 0x0A]"

definition line_cpu1 :: string where
  "line_cpu1 = ''cpu1 70 0 30 300 0 0 0 0 0 0'' @ [CHR 0x0A]"

definition line_intr :: string where
  "line_intr = ''intr 12345 6 7'' @ [CHR 0x0A]"

definition cpuset_0 :: "int \<Rightarrow> bool" where
  "cpuset_0 n = (n = 0)"

definition parse_start :: parse_state where
  "parse_start = \<lparr>p_usage = [cnt 80 40 0 False, cnt 20 10 0 False], p_curcpu = - 1,
     p_cpu_cnt = 0, p_line = None, p_log = []\<rparr>"

definition parse_end :: parse_state where
  "parse_end = \<lparr>p_usage = [cnt 80 40 251 True, cnt 20 10 0 False], p_curcpu = 1,
     p_cpu_cnt = 2, p_line = Some line_intr, p_log = []\<rparr>"

definition env_one_cpu :: host_env where
  "env_one_cpu = \<lparr>cfs_quota = Some 100000, cfs_period = Some 100000,
     cpus_in_cpuset = Some 1, get_nprocs = 2, get_nprocs_conf = 2, now = 0,
     cg_exists = (\<lambda>c. True), calc_hash = (\<lambda>c. 0)\<rparr>"

definition allocs_ok :: allocs where
  "allocs_ok = \<lparr>a_node = True, a_cg = True, a_usage = fresh, a_view = fresh, a_mutex = True,
     a_new_usage = fresh, a_new_view = fresh, a_diff = fresh\<rparr>"

definition empty_history :: "cg_proc_stat_head list" where
  "empty_history = replicate 100 \<lparr>chain = [], lastcheck = 0\<rparr>"

definition node_new :: cg_proc_stat where
  "node_new = \<lparr>cg = ''/lxc/a'', usage = [cnt 80 40 251 True, cnt 20 10 0 False],
     view = [cnt 0 0 0 False, cnt 0 0 0 False], cpu_count = 2, locked = True\<rparr>"

definition history_new :: "cg_proc_stat_head list" where
  "history_new = empty_history[0 := \<lparr>chain = [node_new], lastcheck = 0\<rparr>]"

definition allocs_no_diff :: allocs where
  "allocs_no_diff = allocs_ok\<lparr>a_diff := None\<rparr>"

definition tot_zero :: view_sums where
  "tot_zero = \<lparr>user_sum = 0, system_sum = 0, idle_sum = 0\<rparr>"


definition node_plain :: cg_proc_stat where
  "node_plain = \<lparr>cg = ''/lxc/a'', usage = [cnt 5 2 500 True], view = [cnt 5 2 500 True],
     cpu_count = 1, locked = True\<rparr>"

definition tot_plain :: view_sums where
  "tot_plain = \<lparr>user_sum = 5, system_sum = 2, idle_sum = 500\<rparr>"

definition env_no_quota :: host_env where
  "env_no_quota = \<lparr>cfs_quota = None, cfs_period = None, cpus_in_cpuset = None,
     get_nprocs = 1, get_nprocs_conf = 1, now = 0,
     cg_exists = (\<lambda>c. True), calc_hash = (\<lambda>c. 0)\<rparr>"

definition node_old :: cg_proc_stat where
  "node_old = \<lparr>cg = ''/lxc/a'', usage = [cnt 200 100 400 True],
     view = [cnt 200 100 400 True], cpu_count = 1, locked = True\<rparr>"

definition sample_restarted :: "cpuacct_usage list" where
  "sample_restarted = [cnt 5 2 500 True]"

definition env_half :: host_env where
  "env_half = \<lparr>cfs_quota = Some 50000, cfs_period = Some 100000,
     cpus_in_cpuset = Some 1, get_nprocs = 1, get_nprocs_conf = 1, now = 0,
     cg_exists = (\<lambda>c. True), calc_hash = (\<lambda>c. 0)\<rparr>"

definition line_h1 :: string where
  "line_h1 = ''cpu0 0 0 0 100 0 0 0 0 0 0'' @ [CHR 0x0A]"

definition line_h2 :: string where
  "line_h2 = ''cpu0 60 0 0 140 0 0 0 0 0 0'' @ [CHR 0x0A]"

definition parse_h1 :: parse_state where
  "parse_h1 = \<lparr>p_usage = [cnt 0 0 0 False], p_curcpu = - 1, p_cpu_cnt = 0, p_line = None,
     p_log = []\<rparr>"

definition parse_h2 :: parse_state where
  "parse_h2 = \<lparr>p_usage = [cnt 60 0 0 False], p_curcpu = - 1, p_cpu_cnt = 0, p_line = None,
     p_log = []\<rparr>"

definition sample_h1 :: "cpuacct_usage list" where
  "sample_h1 = [cnt 0 0 100 True]"

definition sample_h2 :: "cpuacct_usage list" where
  "sample_h2 = [cnt 60 0 140 True]"

definition node_h0 :: cg_proc_stat where
  "node_h0 = \<lparr>cg = ''/lxc/a'', usage = [cnt 0 0 0 True], view = [cnt 0 0 0 False],
     cpu_count = 1, locked = True\<rparr>"

definition node_h1 :: cg_proc_stat where
  "node_h1 = \<lparr>cg = ''/lxc/a'', usage = [cnt 0 0 100 True], view = [cnt 0 0 50 False],
     cpu_count = 1, locked = True\<rparr>"

definition node_h2 :: cg_proc_stat where
  "node_h2 = \<lparr>cg = ''/lxc/a'', usage = [cnt 60 0 140 True], view = [cnt 60 0 40 False],
     cpu_count = 1, locked = True\<rparr>"

definition sample_w :: "cpuacct_usage list" where
  "sample_w = [cnt 10 0 90 True, cnt 50 0 50 True]"

definition junk2 :: "cpuacct_usage list" where
  "junk2 = [cnt 7 7 7 False, cnt 7 7 7 False]"

definition node_w1 :: cg_proc_stat where
  "node_w1 = \<lparr>cg = ''/lxc/a'', usage = [cnt 10 0 90 True, cnt 50 0 50 True],
     view = [cnt 63 0 44 False, cnt 0 0 0 False], cpu_count = 2, locked = True\<rparr>"

definition node_w2 :: cg_proc_stat where
  "node_w2 = \<lparr>cg = ''/lxc/a'', usage = [cnt 10 0 90 True, cnt 50 0 50 True],
     view = [cnt 10 0 90 False, cnt 50 0 50 False], cpu_count = 2, locked = True\<rparr>"

definition env_two_no_quota :: host_env where
  "env_two_no_quota = \<lparr>cfs_quota = None, cfs_period = None, cpus_in_cpuset = None,
     get_nprocs = 2, get_nprocs_conf = 2, now = 0,
     cg_exists = (\<lambda>c. True), calc_hash = (\<lambda>c. 0)\<rparr>"

definition parse_h1_end :: parse_state where
  "parse_h1_end = \<lparr>p_usage = sample_h1, p_curcpu = 0, p_cpu_cnt = 1, p_line = Some line_intr,
     p_log = []\<rparr>"

definition parse_h2_end :: parse_state where
  "parse_h2_end = \<lparr>p_usage = sample_h2, p_curcpu = 0, p_cpu_cnt = 1, p_line = Some line_intr,
     p_log = []\<rparr>"

definition four_cpus :: "cpuacct_usage list" where
  "four_cpus = [cnt 0 0 0 True, cnt 0 0 0 False, cnt 0 0 0 True, cnt 0 0 0 True]"

definition redist4_start :: redist_state where
  "redist4_start = \<lparr>r_diff = [cnt 80 40 50 True, cnt 7 7 7 False, cnt 10 5 50 True,
       cnt 20 10 70 True],
     r_i = - 1, r_user_surplus = 20, r_system_surplus = 10\<rparr>"

definition redist4_end :: redist_state where
  "redist4_end = \<lparr>r_diff = [cnt 80 40 50 True, cnt 7 7 7 False, cnt 30 15 20 True,
       cnt 20 10 70 True],
     r_i = 2, r_user_surplus = 0, r_system_surplus = 0\<rparr>"

definition env_frac :: host_env where
  "env_frac = \<lparr>cfs_quota = Some 150000, cfs_period = Some 100000,
     cpus_in_cpuset = Some 2, get_nprocs = 2, get_nprocs_conf = 2, now = 0,
     cg_exists = (\<lambda>c. True), calc_hash = (\<lambda>c. 0)\<rparr>"

definition cpuset_01 :: "int \<Rightarrow> bool" where
  "cpuset_01 n = (n = 0 \<or> n = 1)"

definition line_v0 :: string where
  "line_v0 = ''cpu0 10 0 0 90 0 0 0 0 0 0'' @ [CHR 0x0A]"

definition line_v1 :: string where
  "line_v1 = ''cpu1 20 0 0 80 0 0 0 0 0 0'' @ [CHR 0x0A]"

definition parse_v :: parse_state where
  "parse_v = \<lparr>p_usage = [cnt 10 0 0 False, cnt 20 0 0 False], p_curcpu = - 1,
     p_cpu_cnt = 0, p_line = None, p_log = []\<rparr>"

definition parse_v_end :: parse_state where
  "parse_v_end = \<lparr>p_usage = [cnt 10 0 90 True, cnt 20 0 80 True], p_curcpu = 1,
     p_cpu_cnt = 2, p_line = Some line_intr, p_log = []\<rparr>"

definition node_v0 :: cg_proc_stat where
  "node_v0 = \<lparr>cg = ''/lxc/a'', usage = [cnt 0 0 0 True], view = [cnt 5 0 50 False],
     cpu_count = 1, locked = False\<rparr>"

definition hist_v0 :: "cg_proc_stat_head list" where
  "hist_v0 = empty_history[0 := \<lparr>chain = [node_v0], lastcheck = 0\<rparr>]"

definition node_v_exp :: cg_proc_stat where
  "node_v_exp = \<lparr>cg = ''/lxc/a'', usage = [cnt 0 0 0 False, cnt 0 0 0 False],
     view = [cnt 5 0 50 False, cnt 0 0 0 False], cpu_count = 2, locked = True\<rparr>"

definition hist_v1 :: "cg_proc_stat_head list" where
  "hist_v1 = empty_history[0 := \<lparr>chain = [node_v_exp], lastcheck = 0\<rparr>]"

definition node_v1 :: cg_proc_stat where
  "node_v1 = \<lparr>cg = ''/lxc/a'', usage = [cnt 10 0 90 True, cnt 20 0 80 True],
     view = [cnt 15 0 90 False, cnt 20 0 80 False], cpu_count = 2, locked = False\<rparr>"

definition tot_v :: view_sums where
  "tot_v = \<lparr>user_sum = 35, system_sum = 0, idle_sum = 170\<rparr>"

definition read_v :: read_result where
  "read_v = \<lparr>ret = 97,
     out = ''cpu  35 0 0 170 0 0 0 0 0 0'' @ [CHR 0x0A] @ ''cpu0 15 0 0 90 0 0 0 0 0 0''
           @ [CHR 0x0A] @ ''cpu1 20 0 0 80 0 0 0 0 0 0'' @ [CHR 0x0A] @ line_intr,
     history = empty_history[0 := \<lparr>chain = [node_v1], lastcheck = 0\<rparr>],
     cg_usage = p_usage parse_v_end, idle_errors = []\<rparr>"

section \<open>Resetting and expanding a node\<close>

lemma length_fold_expand_step:
  "length (fst (fold (expand_step node) js nn)) = length (fst nn) \<and>
   length (snd (fold (expand_step node) js nn)) = length (snd nn)"
  by (induction js arbitrary: nn) (auto simp: expand_step_def split: prod.splits)

lemma fold_expand_step_nth:
  assumes "j < length nu" "length nv = length nu"
  shows "fst (fold (expand_step node) [0..<k] (nu, nv)) ! j =
           (if j < k then (if int j < cpu_count node then copy_counters (usage node ! j) (nu ! j)
                           else zero_counters (nu ! j)) else nu ! j)
       \<and> snd (fold (expand_step node) [0..<k] (nu, nv)) ! j =
           (if j < k then (if int j < cpu_count node then copy_counters (view node ! j) (nv ! j)
                           else zero_counters (nv ! j)) else nv ! j)"
  using assms
proof (induction k)
  case 0
  then show ?case by simp
next
  case (Suc k)
  obtain a b where ab: "fold (expand_step node) [0..<k] (nu, nv) = (a, b)"
    by (cases "fold (expand_step node) [0..<k] (nu, nv)")
  have la: "length a = length nu" and lb: "length b = length nu"
    using length_fold_expand_step [of node "[0..<k]" "(nu, nv)"] ab Suc.prems by auto
  have step: "fold (expand_step node) [0..<Suc k] (nu, nv) = expand_step node k (a, b)"
    using ab by simp
  have ih: "a ! j = (if j < k then (if int j < cpu_count node then copy_counters (usage node ! j) (nu ! j)
                           else zero_counters (nu ! j)) else nu ! j)"
       "b ! j = (if j < k then (if int j < cpu_count node then copy_counters (view node ! j) (nv ! j)
                           else zero_counters (nv ! j)) else nv ! j)"
    using Suc ab by simp_all
  show ?case unfolding step using ih la lb Suc.prems
    by (cases "j = k") (auto simp: expand_step_def)
qed

lemma expand_ok:
  assumes "expand_proc_stat_node mu mv node m = Some node'"
  shows "cpu_count node' = m \<and> length (usage node') = nat m \<and> length (view node') = nat m
     \<and> (\<forall>j<nat m. int j < cpu_count node \<longrightarrow>
            user (usage node' ! j) = user (usage node ! j) \<and>
            system (usage node' ! j) = system (usage node ! j) \<and>
            idle (usage node' ! j) = idle (usage node ! j) \<and>
            user (view node' ! j) = user (view node ! j) \<and>
            system (view node' ! j) = system (view node ! j) \<and>
            idle (view node' ! j) = idle (view node ! j))
     \<and> (\<forall>j<nat m. cpu_count node \<le> int j \<longrightarrow>
            user (usage node' ! j) = 0 \<and> system (usage node' ! j) = 0 \<and> idle (usage node' ! j) = 0 \<and>
            user (view node' ! j) = 0 \<and> system (view node' ! j) = 0 \<and> idle (view node' ! j) = 0)"
proof -
  from assms obtain gu gv where mu: "mu = Some gu" and mv: "mv = Some gv"
    by (auto simp: expand_proc_stat_node_def split: option.splits)
  let ?r = "fold (expand_step node) [0..<nat m] (block gu m, block gv m)"
  have n': "node' = node\<lparr>usage := fst ?r, view := snd ?r, cpu_count := m\<rparr>"
    using assms mu mv by (auto simp: expand_proc_stat_node_def split: prod.splits)
  have len: "length (fst ?r) = nat m" "length (snd ?r) = nat m"
    using length_fold_expand_step [of node "[0..<nat m]" "(block gu m, block gv m)"]
    by (simp_all add: block_def)
  have nth: "\<And>j. j < nat m \<Longrightarrow>
      fst ?r ! j = (if int j < cpu_count node then copy_counters (usage node ! j) (block gu m ! j)
                           else zero_counters (block gu m ! j)) \<and>
      snd ?r ! j = (if int j < cpu_count node then copy_counters (view node ! j) (block gv m ! j)
                           else zero_counters (block gv m ! j))"
    using fold_expand_step_nth [of _ "block gu m" "block gv m" node "nat m"]
    by (simp add: block_def)
  show ?thesis
    using n' len nth by (simp add: copy_counters_def zero_counters_def)
qed

lemma length_zero_view: "length (zero_view v n) = length v"
proof -
  have "length (fold (\<lambda>i v. v[i := zero_counters (v ! i)]) js v) = length v" for js
    by (induction js arbitrary: v) auto
  then show ?thesis by (simp add: zero_view_def)
qed

lemma length_memcpy_usage: "length (memcpy_usage dst src n) = length dst"
  by (simp add: memcpy_usage_def)

lemma reset_lengths:
  "length (usage (reset_proc_stat_node node s k)) = length (usage node) \<and>
   length (view (reset_proc_stat_node node s k)) = length (view node) \<and>
   cpu_count (reset_proc_stat_node node s k) = k"
  by (simp add: reset_proc_stat_node_def length_zero_view length_memcpy_usage)

text \<open>
  C7 (amended). When \<open>expand_proc_stat_node\<close> grows a node from \<open>n = cpu_count\<close> to
  \<open>m > n\<close> CPUs, the entries below \<open>n\<close> of the usage and view arrays keep their user,
  system and idle values, the entries from \<open>n\<close> up to \<open>m - 1\<close> have them equal to zero,
  \<open>cpu_count\<close> is \<open>m\<close> and the new arrays hold \<open>m\<close> entries. A reset keeps the length
  of both arrays and sets \<open>cpu_count\<close> to the CPU count it is given.
\<close>

theorem expand_proc_stat_node_frame:
  assumes "expand_proc_stat_node m_usage m_view node m = Some node'"
      and "cpu_count node < m"
  shows "cpu_count node' = m \<and> length (usage node') = nat m \<and> length (view node') = nat m
     \<and> (\<forall>j. int j < cpu_count node \<longrightarrow>
            user (usage node' ! j) = user (usage node ! j) \<and>
            system (usage node' ! j) = system (usage node ! j) \<and>
            idle (usage node' ! j) = idle (usage node ! j) \<and>
            user (view node' ! j) = user (view node ! j) \<and>
            system (view node' ! j) = system (view node ! j) \<and>
            idle (view node' ! j) = idle (view node ! j))
     \<and> (\<forall>j. cpu_count node \<le> int j \<and> int j < m \<longrightarrow>
            user (usage node' ! j) = 0 \<and> system (usage node' ! j) = 0 \<and> idle (usage node' ! j) = 0 \<and>
            user (view node' ! j) = 0 \<and> system (view node' ! j) = 0 \<and> idle (view node' ! j) = 0)
     \<and> (\<forall>s k. length (usage (reset_proc_stat_node node' s k)) = length (usage node') \<and>
              length (view (reset_proc_stat_node node' s k)) = length (view node') \<and>
              cpu_count (reset_proc_stat_node node' s k) = k)"
proof -
  have lt: "j < nat m" if "int j < cpu_count node \<or> int j < m" for j
    using that assms(2) by linarith
  show ?thesis
    using expand_ok [OF assms(1)] lt reset_lengths by simp
qed

theorem expand_proc_stat_node_frame_witness:
  "expand_proc_stat_node fresh fresh node_a3 5 = Some node_a5 \<and> cpu_count node_a3 < 5
   \<and> cpu_count node_a5 = 5 \<and> length (view node_a5) = nat 5
   \<and> idle (view node_a5 ! 2) = idle (view node_a3 ! 2) \<and> user (usage node_a5 ! 4) = 0"
proof -
  have h1: "expand_proc_stat_node fresh fresh node_a3 5 = Some node_a5"
    by (simp add: expand_proc_stat_node_def fresh_def node_a3_def node_a5_def block_def
        expand_step_def copy_counters_def zero_counters_def cnt_def eval_nat_numeral)
  have h2: "cpu_count node_a3 < 5"
    by (simp add: node_a3_def)
  have c: "int 2 < cpu_count node_a3" "cpu_count node_a3 \<le> int 4 \<and> int 4 < 5"
    by (simp_all add: node_a3_def)
  from expand_proc_stat_node_frame [OF h1 h2] c h1 h2 show ?thesis
    by blast
qed

text \<open>
  C7 as stated fails in its last part: a reset with a CPU count below the one of the
  node lowers \<open>cpu_count\<close> and leaves the arrays as they are, and the next expansion,
  to a count between the two, replaces the arrays of three entries by arrays of two.
\<close>

theorem arrays_never_shrunk_counterexample:
  "expand_proc_stat_node fresh fresh (reset_proc_stat_node node_a3 [cnt 1 1 1 True] 1) 2
     = Some node_a2
   \<and> cpu_count (reset_proc_stat_node node_a3 [cnt 1 1 1 True] 1) < cpu_count node_a3
   \<and> length (usage node_a2) < length (usage node_a3)
   \<and> length (view node_a2) < length (view node_a3)"
  by (simp add: expand_proc_stat_node_def reset_proc_stat_node_def fresh_def node_a3_def
      node_a2_def block_def expand_step_def copy_counters_def zero_counters_def cnt_def
      memcpy_usage_def zero_view_def eval_nat_numeral)

section \<open>max_cpu_count\<close>

lemma to_int32_id: "- (2 ^ 31) \<le> x \<Longrightarrow> x < 2 ^ 31 \<Longrightarrow> to_int32 x = x"
  unfolding to_int32_def
  by (simp add: sint_sbintrunc' signed_take_bit_int_eq_self)
  
lemma max_cpu_count_in_range:
  assumes "cfs_quota e = Some q" "cfs_period e = Some p" "0 < q" "0 < p" "q div p < 2 ^ 31 - 1"
  shows "max_cpu_count e =
     (let ceil = (if q mod p > 0 then q div p + 1 else q div p);
          nr = (case cpus_in_cpuset e of None \<Rightarrow> 0 | Some n \<Rightarrow> n);
          rv = min ceil (get_nprocs e)
      in if nr > 0 \<and> nr < rv then nr else rv)"
proof -
  have "0 \<le> q div p" using assms by (simp add: pos_imp_zdiv_nonneg_iff)
  then have a: "to_int32 (q div p) = q div p" "to_int32 (q div p + 1) = q div p + 1"
    using assms(5) by (auto intro!: to_int32_id)
  show ?thesis using assms a
    by (auto simp: max_cpu_count_def Let_def min_def split: option.splits)
qed

text \<open>
  C4. The quotient of quota and period is stored in an \<open>int\<close> before it is clamped: for
  a quota of 4294967296000 and a period of 1000 microseconds the quotient \<open>2 ^ 32\<close>
  becomes 0, and \<open>max_cpu_count\<close> returns 0 on a host with four CPUs, where the claim
  gives 4.
\<close>

theorem max_cpu_count_overflow:
  "cfs_quota env_overflow = Some 4294967296000 \<and> cfs_period env_overflow = Some 1000
   \<and> get_nprocs env_overflow = 4 \<and> max_cpu_count env_overflow = 0"
  by (simp add: max_cpu_count_def env_overflow_def to_int32_def)

section \<open>The redistribution of the surplus\<close>

lemma add_cpu_usage_user:
  "add_cpu_usage pool d Counter_user thr =
     (pool - credited_amount pool d thr,
      d\<lparr>user := user d + credited_amount pool d thr, idle := idle d - credited_amount pool d thr\<rparr>)"
  by (auto simp: add_cpu_usage_def credited_amount_def Let_def min_def not_less)

lemma add_cpu_usage_system:
  "add_cpu_usage pool d Counter_system thr =
     (pool - credited_amount pool d thr,
      d\<lparr>system := system d + credited_amount pool d thr, idle := idle d - credited_amount pool d thr\<rparr>)"
  by (auto simp: add_cpu_usage_def credited_amount_def Let_def min_def not_less)

lemma credited_le: "credited_amount pool d thr \<le> pool" "credited_amount pool d thr \<le> idle d"
  by (auto simp: credited_amount_def min_def)

lemma unat_min_word: "unat (min (a::u64) b) = min (unat a) (unat b)"
  by (simp add: min_def word_le_nat_alt)

lemma unat_credited:
  assumes "user d + system d < thr"
  shows "unat (credited_amount pool d thr) =
           min (unat pool) (min (unat thr - unat (user d + system d)) (unat (idle d)))"
proof -
  have e: "thr - user d - system d = thr - (user d + system d)"
    by (simp add: diff_diff_eq)
  have "unat (thr - (user d + system d)) = unat thr - unat (user d + system d)"
    using assms by (simp add: unat_sub less_imp_le)
  then show ?thesis
    unfolding credited_amount_def e by (simp only: unat_min_word)
qed

lemma unat_sub_le: "(t::u64) \<le> x \<Longrightarrow> unat (x - t) = unat x - unat t"
  by (simp add: unat_sub)

lemma credit_cpu_cases:
  "credit_cpu thr (us, ss, d) =
     (let t1 = credited_amount us d thr;
          d1 = d\<lparr>user := user d + t1, idle := idle d - t1\<rparr>;
          t2 = credited_amount ss d1 thr
      in if user d + system d \<ge> thr then (us, ss, d)
         else if user d1 + system d1 \<ge> thr then (us - t1, ss, d1)
         else (us - t1, ss - t2, d1\<lparr>system := system d + t2, idle := idle d - t1 - t2\<rparr>))"
  by (simp add: credit_cpu_def add_cpu_usage_user add_cpu_usage_system Let_def)

lemma credit_cpu_facts:
  assumes "credit_cpu thr (us, ss, d) = (us', ss', d')"
  shows "us' \<le> us \<and> ss' \<le> ss \<and> idle d' \<le> idle d
     \<and> unat (user d' - user d) = unat us - unat us'
     \<and> unat (system d' - system d) = unat ss - unat ss'
     \<and> unat (idle d) - unat (idle d') = (unat us - unat us') + (unat ss - unat ss')"
proof -
  define t1 where "t1 = credited_amount us d thr"
  define d1 where "d1 = d\<lparr>user := user d + t1, idle := idle d - t1\<rparr>"
  define t2 where "t2 = credited_amount ss d1 thr"
  have t1: "t1 \<le> us" "t1 \<le> idle d"
    unfolding t1_def by (rule credited_le)+
  have t2: "t2 \<le> ss" "t2 \<le> idle d - t1"
    using credited_le [of ss d1 thr] unfolding t2_def d1_def by simp_all
  have n1: "unat t1 \<le> unat us" "unat t1 \<le> unat (idle d)"
    using t1 by (simp_all add: word_le_nat_alt)
  have u1: "unat (us - t1) = unat us - unat t1" "unat (idle d - t1) = unat (idle d) - unat t1"
    using t1 by (simp_all add: unat_sub_le)
  have n2: "unat t2 \<le> unat ss" "unat t2 \<le> unat (idle d) - unat t1"
    using t2 u1 by (simp_all add: word_le_nat_alt)
  have u2: "unat (ss - t2) = unat ss - unat t2"
       "unat (idle d - t1 - t2) = unat (idle d) - unat t1 - unat t2"
    using t2 u1 by (simp_all add: unat_sub_le)
  have c1: "user d + t1 - user d = t1" "system d + t2 - system d = t2"
    by simp_all
  consider (a) "us' = us" "ss' = ss" "d' = d"
    | (b) "us' = us - t1" "ss' = ss" "d' = d1"
    | (c) "us' = us - t1" "ss' = ss - t2" "d' = d1\<lparr>system := system d + t2, idle := idle d - t1 - t2\<rparr>"
    using assms unfolding credit_cpu_cases Let_def t1_def [symmetric] d1_def [symmetric] t2_def [symmetric]
    by (auto split: if_splits)
  then show ?thesis
  proof cases
    case a
    then show ?thesis by simp
  next
    case b
    have "unat us' \<le> unat us" "unat (idle d') \<le> unat (idle d)"
         "unat us - unat us' = unat t1" "unat (idle d) - unat (idle d') = unat t1"
      using b u1 n1 by (simp_all add: d1_def)
    moreover have "user d' - user d = t1" "system d' - system d = 0" 
      using b c1 by (simp_all add: d1_def)
    ultimately show ?thesis using b by (simp add: word_le_nat_alt)
  next
    case c
    have "unat us' \<le> unat us" "unat ss' \<le> unat ss" "unat (idle d') \<le> unat (idle d)"
         "unat us - unat us' = unat t1" "unat ss - unat ss' = unat t2"
         "unat (idle d) - unat (idle d') = unat t1 + unat t2"
      using c u1 u2 n1 n2 by (simp_all add: d1_def)
    moreover have "user d' - user d = t1" "system d' - system d = t2" 
      using c c1 by (simp_all add: d1_def)
    ultimately show ?thesis by (simp add: word_le_nat_alt)
  qed
qed


lemma redistribute_frame:
  "length (r_diff (redistribute us mc thr cs st)) = length (r_diff st) \<and>
   (\<forall>j. j \<notin> set cs \<longrightarrow> r_diff (redistribute us mc thr cs st) ! j = r_diff st ! j)"
proof (induction cs arbitrary: st)
  case Nil
  then show ?case by simp
next
  case (Cons c cs)
  show ?case
  proof (cases "online (us ! c)")
    case False
    then show ?thesis using Cons [of st] by simp
  next
    case True
    show ?thesis
    proof (cases "r_i st + 1 = mc")
      case True
      then show ?thesis using \<open>online (us ! c)\<close> by simp
    next
      case False
      obtain a b d where cr: "credit_cpu thr (r_user_surplus st, r_system_surplus st, r_diff st ! c) = (a, b, d)"
        by (metis prod_cases3)
      let ?st1 = "st\<lparr>r_i := r_i st + 1, r_diff := (r_diff st)[c := d],
                      r_user_surplus := a, r_system_surplus := b\<rparr>"
      have eq: "redistribute us mc thr (c # cs) st = redistribute us mc thr cs ?st1"
        using \<open>online (us ! c)\<close> False cr by (simp add: Let_def)
      show ?thesis unfolding eq using Cons [of ?st1] by (auto simp: nth_list_update)
    qed
  qed
qed

lemma redistribute_pools:
  assumes "distinct cs" "\<forall>c\<in>set cs. c < length (r_diff st)"
  shows "r_user_surplus (redistribute us mc thr cs st) \<le> r_user_surplus st
     \<and> r_system_surplus (redistribute us mc thr cs st) \<le> r_system_surplus st
     \<and> (\<Sum>c\<leftarrow>cs. unat (user (r_diff (redistribute us mc thr cs st) ! c) - user (r_diff st ! c)))
         = unat (r_user_surplus st) - unat (r_user_surplus (redistribute us mc thr cs st))
     \<and> (\<Sum>c\<leftarrow>cs. unat (system (r_diff (redistribute us mc thr cs st) ! c) - system (r_diff st ! c)))
         = unat (r_system_surplus st) - unat (r_system_surplus (redistribute us mc thr cs st))
     \<and> (\<Sum>c\<leftarrow>cs. unat (idle (r_diff st ! c)) - unat (idle (r_diff (redistribute us mc thr cs st) ! c)))
         = (unat (r_user_surplus st) - unat (r_user_surplus (redistribute us mc thr cs st)))
           + (unat (r_system_surplus st) - unat (r_system_surplus (redistribute us mc thr cs st)))"
  using assms
proof (induction cs arbitrary: st)
  case Nil
  then show ?case by simp
next
  case (Cons c cs)
  have dc: "distinct cs" "c \<notin> set cs" using Cons.prems by simp_all
  show ?case
  proof (cases "online (us ! c) \<and> r_i st + 1 \<noteq> mc")
    case False
    then consider (off) "\<not> online (us ! c)" | (brk) "online (us ! c)" "r_i st + 1 = mc" by blast
    then show ?thesis
    proof cases
      case off
      have eq: "redistribute us mc thr (c # cs) st = redistribute us mc thr cs st"
        using off by simp
      have same: "r_diff (redistribute us mc thr cs st) ! c = r_diff st ! c"
        using redistribute_frame [of us mc thr cs st] dc by simp
      show ?thesis unfolding eq using Cons.IH [of st] Cons.prems dc same by simp
    next
      case brk
      have eq: "redistribute us mc thr (c # cs) st = st\<lparr>r_i := r_i st + 1\<rparr>"
        using brk by simp
      show ?thesis unfolding eq by simp
    qed
  next
    case True
    obtain a b d where cr: "credit_cpu thr (r_user_surplus st, r_system_surplus st, r_diff st ! c) = (a, b, d)"
      by (metis prod_cases3)
    let ?st1 = "st\<lparr>r_i := r_i st + 1, r_diff := (r_diff st)[c := d],
                    r_user_surplus := a, r_system_surplus := b\<rparr>"
    let ?st' = "redistribute us mc thr cs ?st1"
    have eq: "redistribute us mc thr (c # cs) st = ?st'"
      using True cr by (simp add: Let_def)
    have f: "a \<le> r_user_surplus st" "b \<le> r_system_surplus st"
        "unat (user d - user (r_diff st ! c)) = unat (r_user_surplus st) - unat a"
        "unat (system d - system (r_diff st ! c)) = unat (r_system_surplus st) - unat b"
        "unat (idle (r_diff st ! c)) - unat (idle d) =
           (unat (r_user_surplus st) - unat a) + (unat (r_system_surplus st) - unat b)"
      using credit_cpu_facts [OF cr] by simp_all
    have clen: "c < length (r_diff st)" using Cons.prems by simp
    have pre: "\<forall>c'\<in>set cs. c' < length (r_diff ?st1)" using Cons.prems by simp
    have ih: "r_user_surplus ?st' \<le> a" "r_system_surplus ?st' \<le> b"
      "(\<Sum>c\<leftarrow>cs. unat (user (r_diff ?st' ! c) - user (r_diff ?st1 ! c))) = unat a - unat (r_user_surplus ?st')"
      "(\<Sum>c\<leftarrow>cs. unat (system (r_diff ?st' ! c) - system (r_diff ?st1 ! c))) = unat b - unat (r_system_surplus ?st')"
      "(\<Sum>c\<leftarrow>cs. unat (idle (r_diff ?st1 ! c)) - unat (idle (r_diff ?st' ! c)))
         = (unat a - unat (r_user_surplus ?st')) + (unat b - unat (r_system_surplus ?st'))"
      using Cons.IH [OF dc(1) pre] by simp_all
    have old: "(r_diff st)[c := d] ! c' = r_diff st ! c'" if "c' \<in> set cs" for c'
    proof -
      have "c' \<noteq> c" using that dc by auto
      then show ?thesis by simp
    qed
    have s1: "(\<Sum>c\<leftarrow>cs. unat (user (r_diff ?st' ! c) - user (r_diff ?st1 ! c)))
            = (\<Sum>c\<leftarrow>cs. unat (user (r_diff ?st' ! c) - user (r_diff st ! c)))"
      by (rule arg_cong [where f = sum_list], rule map_cong) (simp_all add: old)
    have s2: "(\<Sum>c\<leftarrow>cs. unat (system (r_diff ?st' ! c) - system (r_diff ?st1 ! c)))
            = (\<Sum>c\<leftarrow>cs. unat (system (r_diff ?st' ! c) - system (r_diff st ! c)))"
      by (rule arg_cong [where f = sum_list], rule map_cong) (simp_all add: old)
    have s3: "(\<Sum>c\<leftarrow>cs. unat (idle (r_diff ?st1 ! c)) - unat (idle (r_diff ?st' ! c)))
            = (\<Sum>c\<leftarrow>cs. unat (idle (r_diff st ! c)) - unat (idle (r_diff ?st' ! c)))"
      by (rule arg_cong [where f = sum_list], rule map_cong) (simp_all add: old)
    have hd: "r_diff ?st' ! c = d"
      using redistribute_frame [of us mc thr cs ?st1] dc clen by simp
    have le: "unat (r_user_surplus ?st') \<le> unat a" "unat a \<le> unat (r_user_surplus st)"
             "unat (r_system_surplus ?st') \<le> unat b" "unat b \<le> unat (r_system_surplus st)"
      using ih(1,2) f(1,2) by (simp_all add: word_le_nat_alt)
    show ?thesis
      unfolding eq
      using ih(3-5) f(3-5) le hd
      by (simp add: word_le_nat_alt s1 [symmetric] s2 [symmetric] s3 [symmetric])
  qed
qed

lemma credit_cpu_claimed: "credit_cpu thr s = claimed_credit thr s"
  by (cases s) (simp add: credit_cpu_cases claimed_credit_def credited_amount_def Let_def)

lemma redistribute_claimed:
  assumes "r_i st + 1 \<le> mc"
  shows "(r_diff (redistribute us mc thr cs st), r_user_surplus (redistribute us mc thr cs st),
          r_system_surplus (redistribute us mc thr cs st))
       = claimed_redistribution thr
           (take (nat (mc - (r_i st + 1))) (filter (\<lambda>c. online (us ! c)) cs))
           (r_diff st, r_user_surplus st, r_system_surplus st)"
  using assms
proof (induction cs arbitrary: st)
  case Nil
  then show ?case by simp
next
  case (Cons c cs)
  show ?case
  proof (cases "online (us ! c)")
    case False
    then show ?thesis using Cons.IH [OF Cons.prems] by simp
  next
    case True
    show ?thesis
    proof (cases "r_i st + 1 = mc")
      case True
      then show ?thesis using \<open>online (us ! c)\<close> by simp
    next
      case False
      then have lt: "r_i st + 1 < mc" using Cons.prems by simp
      obtain a b d where cr: "credit_cpu thr (r_user_surplus st, r_system_surplus st, r_diff st ! c) = (a, b, d)"
        by (metis prod_cases3)
      let ?st1 = "st\<lparr>r_i := r_i st + 1, r_diff := (r_diff st)[c := d],
                      r_user_surplus := a, r_system_surplus := b\<rparr>"
      have eq: "redistribute us mc thr (c # cs) st = redistribute us mc thr cs ?st1"
        using True False cr by (simp add: Let_def)
      have n: "nat (mc - (r_i st + 1)) = Suc (nat (mc - (r_i ?st1 + 1)))"
        using lt by simp
      have tk: "take (nat (mc - (r_i st + 1))) (filter (\<lambda>c. online (us ! c)) (c # cs))
                  = c # take (nat (mc - (r_i ?st1 + 1))) (filter (\<lambda>c. online (us ! c)) cs)"
        unfolding n using True by simp
      have pre: "r_i ?st1 + 1 \<le> mc" using lt by simp
      show ?thesis
        unfolding eq tk Cons.IH [OF pre]
        using cr by (simp add: credit_cpu_claimed)
    qed
  qed
qed

lemma claimed_redistribution_frame:
  "length (fst (claimed_redistribution thr V s)) = length (fst s)
   \<and> (\<forall>j. j \<notin> set V \<longrightarrow> fst (claimed_redistribution thr V s) ! j = fst s ! j)"
proof (induction V arbitrary: s)
  case Nil
  then show ?case by simp
next
  case (Cons i V)
  obtain diff pu ps where s: "s = (diff, pu, ps)" by (metis prod_cases3)
  obtain a b d where cr: "claimed_credit thr (pu, ps, diff ! i) = (a, b, d)"
    by (metis prod_cases3)
  have eq: "claimed_redistribution thr (i # V) s = claimed_redistribution thr V (diff[i := d], a, b)"
    using s cr by simp
  show ?case
    unfolding eq using Cons [of "(diff[i := d], a, b)"] s by auto
qed

lemma claimed_redistribution_append:
  "claimed_redistribution thr (V @ W) s
     = claimed_redistribution thr W (claimed_redistribution thr V s)"
proof (induction V arbitrary: s)
  case Nil
  then show ?case by simp
next
  case (Cons i V)
  obtain diff pu ps where s: "s = (diff, pu, ps)" by (metis prod_cases3)
  show ?case using Cons s by (simp split: prod.splits)
qed

lemma claimed_redistribution_at:
  assumes v: "V = pre @ i # post" and d: "distinct V" and l: "i < length diff"
      and p: "claimed_redistribution thr pre (diff, pu, ps) = (dpre, pu1, ps1)"
  shows "dpre ! i = diff ! i
     \<and> fst (claimed_redistribution thr V (diff, pu, ps)) ! i
         = snd (snd (claimed_credit thr (pu1, ps1, diff ! i)))
     \<and> claimed_redistribution thr (pre @ [i]) (diff, pu, ps)
         = (dpre[i := snd (snd (claimed_credit thr (pu1, ps1, diff ! i)))],
            fst (claimed_credit thr (pu1, ps1, diff ! i)),
            fst (snd (claimed_credit thr (pu1, ps1, diff ! i))))"
proof -
  have ni: "i \<notin> set pre" "i \<notin> set post" using v d by auto
  have fr: "length dpre = length diff" "dpre ! i = diff ! i"
    using claimed_redistribution_frame [of thr pre "(diff, pu, ps)"] p ni by auto
  obtain a b d' where cr: "claimed_credit thr (pu1, ps1, diff ! i) = (a, b, d')"
    by (metis prod_cases3)
  have st: "claimed_redistribution thr (pre @ [i]) (diff, pu, ps) = (dpre[i := d'], a, b)"
    using p cr fr by (simp add: claimed_redistribution_append)
  have "claimed_redistribution thr V (diff, pu, ps)
          = claimed_redistribution thr post (dpre[i := d'], a, b)"
    using st unfolding v
    using claimed_redistribution_append [of thr "pre @ [i]" post "(diff, pu, ps)"] by simp
  then have "fst (claimed_redistribution thr V (diff, pu, ps)) ! i = dpre[i := d'] ! i"
    using claimed_redistribution_frame [of thr post "(dpre[i := d'], a, b)"] ni by simp
  then show ?thesis using fr l st cr by simp
qed

lemma claimed_cpus_distinct: "distinct (claimed_cpus us nprocs max_cpus)"
  by (simp add: claimed_cpus_def online_cpus_def distinct_take)

lemma claimed_cpus_bound: "i \<in> set (claimed_cpus us nprocs max_cpus) \<Longrightarrow> i < nat nprocs \<and> online (us ! i)"
  by (auto simp: claimed_cpus_def online_cpus_def dest!: in_set_takeD)

lemma claimed_credit_saturated:
  "threshold \<le> user d + system d \<Longrightarrow> claimed_credit threshold (pu, ps, d) = (pu, ps, d)"
  by (simp add: claimed_credit_def)

text \<open>
  C6. The redistribution loop of \<open>cpuview_proc_stat\<close>, started with \<open>i = - 1\<close>, does
  what the specification says: it goes through the visible CPUs, the first \<open>max_cpus\<close>
  online CPUs, and leaves every other CPU (offline, or online beyond the first
  \<open>max_cpus\<close>) and every visible CPU whose user plus system delta has reached the
  threshold as it is. A visible CPU below the threshold is credited from the user pool,
  as the earlier visible CPUs have left it, with the least of the pool, the threshold
  minus the user and system delta, and the idle delta; \<open>add_cpu_usage\<close> adds this amount
  to the user delta and takes it from the pool and from the idle delta; when the CPU is
  still below the threshold the same is done with the system pool and the system delta.
  Over the loop no pool grows, and the user time, the system time and the idle time
  moved are what the pools have lost, so that no more than the pools held is credited.
\<close>

theorem surplus_redistribution:
  assumes run: "st' = redistribute us max_cpus threshold [0..<nat nprocs] st"
      and start: "r_i st = - 1"
      and quota: "0 \<le> max_cpus"
      and len: "nat nprocs \<le> length (r_diff st)"
  shows "add_cpu_usage pool d Counter_user threshold =
     (pool - credited_amount pool d threshold,
      d\<lparr>user := user d + credited_amount pool d threshold,
        idle := idle d - credited_amount pool d threshold\<rparr>)
   \<and> add_cpu_usage pool d Counter_system threshold =
     (pool - credited_amount pool d threshold,
      d\<lparr>system := system d + credited_amount pool d threshold,
        idle := idle d - credited_amount pool d threshold\<rparr>)
   \<and> credited_amount pool d threshold \<le> pool
   \<and> credited_amount pool d threshold \<le> idle d
   \<and> (user d + system d < threshold \<longrightarrow>
        unat (credited_amount pool d threshold) =
          min (unat pool) (min (unat threshold - unat (user d + system d)) (unat (idle d))))
   \<and> credit_cpu threshold (pool, pool2, d) = claimed_credit threshold (pool, pool2, d)
   \<and> (r_diff st', r_user_surplus st', r_system_surplus st')
        = claimed_redistribution threshold (claimed_cpus us nprocs max_cpus)
            (r_diff st, r_user_surplus st, r_system_surplus st)
   \<and> length (r_diff st') = length (r_diff st)
   \<and> (\<forall>j. j \<notin> set (claimed_cpus us nprocs max_cpus) \<longrightarrow> r_diff st' ! j = r_diff st ! j)
   \<and> (\<forall>i\<in>set (claimed_cpus us nprocs max_cpus).
         threshold \<le> user (r_diff st ! i) + system (r_diff st ! i) \<longrightarrow>
           r_diff st' ! i = r_diff st ! i)
   \<and> (\<forall>pre i post dpre pu ps.
         claimed_cpus us nprocs max_cpus = pre @ i # post
         \<and> claimed_redistribution threshold pre
             (r_diff st, r_user_surplus st, r_system_surplus st) = (dpre, pu, ps)
         \<and> user (r_diff st ! i) + system (r_diff st ! i) < threshold \<longrightarrow>
           (let d0 = r_diff st ! i;
                t1 = credited_amount pu d0 threshold;
                d1 = d0\<lparr>user := user d0 + t1, idle := idle d0 - t1\<rparr>;
                t2 = (if user d1 + system d1 < threshold then credited_amount ps d1 threshold
                      else 0)
            in dpre ! i = d0
             \<and> r_diff st' ! i = d1\<lparr>system := system d0 + t2, idle := idle d0 - t1 - t2\<rparr>
             \<and> claimed_redistribution threshold (pre @ [i])
                  (r_diff st, r_user_surplus st, r_system_surplus st)
                 = (dpre[i := r_diff st' ! i], pu - t1, ps - t2)))
   \<and> r_user_surplus st' \<le> r_user_surplus st
   \<and> r_system_surplus st' \<le> r_system_surplus st
   \<and> (\<Sum>c\<leftarrow>[0..<nat nprocs]. unat (user (r_diff st' ! c) - user (r_diff st ! c)))
       = unat (r_user_surplus st) - unat (r_user_surplus st')
   \<and> (\<Sum>c\<leftarrow>[0..<nat nprocs]. unat (system (r_diff st' ! c) - system (r_diff st ! c)))
       = unat (r_system_surplus st) - unat (r_system_surplus st')
   \<and> (\<Sum>c\<leftarrow>[0..<nat nprocs]. unat (idle (r_diff st ! c)) - unat (idle (r_diff st' ! c)))
       = (unat (r_user_surplus st) - unat (r_user_surplus st'))
         + (unat (r_system_surplus st) - unat (r_system_surplus st'))"
proof -
  let ?V = "claimed_cpus us nprocs max_cpus"
  let ?s = "(r_diff st, r_user_surplus st, r_system_surplus st)"
  have ref: "(r_diff st', r_user_surplus st', r_system_surplus st')
        = claimed_redistribution threshold ?V ?s"
    using redistribute_claimed [of st max_cpus us threshold "[0..<nat nprocs]"] start quota
    unfolding run claimed_cpus_def online_cpus_def by simp
  have rd: "r_diff st' = fst (claimed_redistribution threshold ?V ?s)"
    using ref by (metis fst_conv)
  have fr: "length (r_diff st') = length (r_diff st)"
      "\<forall>j. j \<notin> set ?V \<longrightarrow> r_diff st' ! j = r_diff st ! j"
    using claimed_redistribution_frame [of threshold ?V ?s] unfolding rd by simp_all
  have at: "dpre ! i = r_diff st ! i
     \<and> r_diff st' ! i = snd (snd (claimed_credit threshold (pu, ps, r_diff st ! i)))
     \<and> claimed_redistribution threshold (pre @ [i]) ?s
         = (dpre[i := snd (snd (claimed_credit threshold (pu, ps, r_diff st ! i)))],
            fst (claimed_credit threshold (pu, ps, r_diff st ! i)),
            fst (snd (claimed_credit threshold (pu, ps, r_diff st ! i))))"
    if v: "?V = pre @ i # post"
      and p: "claimed_redistribution threshold pre ?s = (dpre, pu, ps)"
    for pre i post dpre pu ps
  proof -
    have "i \<in> set ?V" using v by simp
    then have "i < length (r_diff st)"
      using claimed_cpus_bound [of i us nprocs max_cpus] len by simp
    from claimed_redistribution_at [OF v claimed_cpus_distinct this p]
    show ?thesis unfolding rd by simp
  qed
  have sat: "\<forall>i\<in>set ?V. threshold \<le> user (r_diff st ! i) + system (r_diff st ! i) \<longrightarrow>
           r_diff st' ! i = r_diff st ! i"
  proof (intro ballI impI)
    fix i assume i: "i \<in> set ?V"
      and s: "threshold \<le> user (r_diff st ! i) + system (r_diff st ! i)"
    from i obtain pre post where v: "?V = pre @ i # post"
      by (meson split_list)
    obtain dpre pu ps where p: "claimed_redistribution threshold pre ?s = (dpre, pu, ps)"
      by (metis prod_cases3)
    from at [OF v p] show "r_diff st' ! i = r_diff st ! i"
      using s by (simp add: claimed_credit_saturated)
  qed
  have each: "\<forall>pre i post dpre pu ps.
         ?V = pre @ i # post
         \<and> claimed_redistribution threshold pre ?s = (dpre, pu, ps)
         \<and> user (r_diff st ! i) + system (r_diff st ! i) < threshold \<longrightarrow>
           (let d0 = r_diff st ! i;
                t1 = credited_amount pu d0 threshold;
                d1 = d0\<lparr>user := user d0 + t1, idle := idle d0 - t1\<rparr>;
                t2 = (if user d1 + system d1 < threshold then credited_amount ps d1 threshold
                      else 0)
            in dpre ! i = d0
             \<and> r_diff st' ! i = d1\<lparr>system := system d0 + t2, idle := idle d0 - t1 - t2\<rparr>
             \<and> claimed_redistribution threshold (pre @ [i]) ?s
                 = (dpre[i := r_diff st' ! i], pu - t1, ps - t2))"
  proof (intro allI impI)
    fix pre i post dpre pu ps
    assume a: "?V = pre @ i # post
         \<and> claimed_redistribution threshold pre ?s = (dpre, pu, ps)
         \<and> user (r_diff st ! i) + system (r_diff st ! i) < threshold"
    then have v: "?V = pre @ i # post"
      and p: "claimed_redistribution threshold pre ?s = (dpre, pu, ps)"
      and b: "user (r_diff st ! i) + system (r_diff st ! i) < threshold"
      by simp_all
    define d0 where "d0 = r_diff st ! i"
    have cc: "claimed_credit threshold (pu, ps, d0)
                = (let t1 = credited_amount pu d0 threshold;
                       d1 = d0\<lparr>user := user d0 + t1, idle := idle d0 - t1\<rparr>;
                       t2 = (if user d1 + system d1 < threshold
                             then credited_amount ps d1 threshold else 0)
                   in (pu - t1, ps - t2, d1\<lparr>system := system d0 + t2, idle := idle d0 - t1 - t2\<rparr>))"
    proof -
      define t1 where "t1 = credited_amount pu d0 threshold"
      define d1 where "d1 = d0\<lparr>user := user d0 + t1, idle := idle d0 - t1\<rparr>"
      have nb: "\<not> threshold \<le> user d0 + system d0"
        using b unfolding d0_def by (simp add: not_le)
      have t: "min pu (min (threshold - user d0 - system d0) (idle d0)) = t1"
        by (simp add: t1_def credited_amount_def)
      show ?thesis
      proof (cases "threshold \<le> user d0 + t1 + system d0")
        case True
        have "claimed_credit threshold (pu, ps, d0) = (pu - t1, ps, d1)"
          using nb True by (simp add: claimed_credit_def Let_def t d1_def)
        moreover have "d1\<lparr>system := system d0 + 0, idle := idle d0 - t1 - 0\<rparr> = d1"
          by (simp add: d1_def)
        moreover have "\<not> user d0 + t1 + system d0 < threshold"
          using True by (simp add: not_less)
        ultimately show ?thesis
          unfolding Let_def t1_def [symmetric] d1_def [symmetric]
          by (simp add: d1_def)
      next
        case False
        define t2 where "t2 = min ps (min (threshold - (user d0 + t1) - system d0) (idle d0 - t1))"
        have "claimed_credit threshold (pu, ps, d0)
                = (pu - t1, ps - t2, d1\<lparr>system := system d0 + t2, idle := idle d0 - t1 - t2\<rparr>)"
          using nb False by (simp add: claimed_credit_def Let_def t d1_def t2_def)
        moreover have "credited_amount ps d1 threshold = t2"
          by (simp add: credited_amount_def d1_def t2_def)
        moreover have "user d0 + t1 + system d0 < threshold"
          using False by (simp add: not_le)
        ultimately show ?thesis
          unfolding Let_def t1_def [symmetric] d1_def [symmetric]
          by (simp add: d1_def)
      qed
    qed
    show "(let d0 = r_diff st ! i;
                t1 = credited_amount pu d0 threshold;
                d1 = d0\<lparr>user := user d0 + t1, idle := idle d0 - t1\<rparr>;
                t2 = (if user d1 + system d1 < threshold then credited_amount ps d1 threshold
                      else 0)
            in dpre ! i = d0
             \<and> r_diff st' ! i = d1\<lparr>system := system d0 + t2, idle := idle d0 - t1 - t2\<rparr>
             \<and> claimed_redistribution threshold (pre @ [i]) ?s
                 = (dpre[i := r_diff st' ! i], pu - t1, ps - t2))"
      using at [OF v p] unfolding d0_def [symmetric] cc by (simp add: Let_def)
  qed
  have pre: "distinct [0..<nat nprocs]" "\<forall>c\<in>set [0..<nat nprocs]. c < length (r_diff st)"
    using len by auto
  note cons = redistribute_pools [OF pre, of us max_cpus threshold, folded run]
  show ?thesis
    using add_cpu_usage_user [of pool d threshold] add_cpu_usage_system [of pool d threshold]
      credited_le [of pool d threshold] unat_credited [of d threshold pool]
      credit_cpu_claimed [of threshold "(pool, pool2, d)"] ref fr sat each cons
    by blast
qed

text \<open>
  The theorem at a loop over four CPUs with \<open>max_cpus = 2\<close> and the threshold 100: CPU 0
  is visible and saturated (80 + 40), CPU 1 is offline, CPU 2 is visible and below the
  threshold, CPU 3 is a donor. Only CPU 2 changes: it draws 20 from the user pool and 10
  from the system pool, and its idle delta falls by 30.
\<close>

theorem surplus_redistribution_witness:
  "redist4_end = redistribute four_cpus 2 100 [0..<nat 4] redist4_start
   \<and> r_i redist4_start = - 1
   \<and> (0::int) \<le> 2
   \<and> nat 4 \<le> length (r_diff redist4_start)
   \<and> claimed_cpus four_cpus 4 2 = [0, 2]
   \<and> user (cnt 10 5 50 True) + system (cnt 10 5 50 True) < 100
   \<and> unat (credited_amount 20 (cnt 10 5 50 True) 100) = 20
   \<and> (r_diff redist4_end, r_user_surplus redist4_end, r_system_surplus redist4_end)
        = claimed_redistribution 100 [0, 2]
            (r_diff redist4_start, r_user_surplus redist4_start, r_system_surplus redist4_start)
   \<and> r_diff redist4_end ! 0 = r_diff redist4_start ! 0
   \<and> r_diff redist4_end ! 1 = r_diff redist4_start ! 1
   \<and> r_diff redist4_end ! 3 = r_diff redist4_start ! 3
   \<and> r_diff redist4_start ! 2 = cnt 10 5 50 True
   \<and> r_diff redist4_end ! 2 = cnt 30 15 20 True
   \<and> r_user_surplus redist4_end \<le> r_user_surplus redist4_start
   \<and> r_system_surplus redist4_end \<le> r_system_surplus redist4_start
   \<and> unat (r_user_surplus redist4_start) - unat (r_user_surplus redist4_end) = 20
   \<and> unat (r_system_surplus redist4_start) - unat (r_system_surplus redist4_end) = 10"
proof -
  have run: "redist4_end = redistribute four_cpus 2 100 [0..<nat 4] redist4_start"
    by code_simp
  have start: "r_i redist4_start = - 1"
    by (simp add: redist4_start_def)
  have quota: "(0::int) \<le> 2"
    by simp
  have len: "nat 4 \<le> length (r_diff redist4_start)"
    by (simp add: redist4_start_def)
  have vis: "claimed_cpus four_cpus 4 2 = [0, 2]"
    by code_simp
  have below: "user (cnt 10 5 50 True) + system (cnt 10 5 50 True) < 100"
    by (simp add: cnt_def)
  have sat: "(100::u64) \<le> user (r_diff redist4_start ! 0) + system (r_diff redist4_start ! 0)"
    by (simp add: redist4_start_def cnt_def)
  have out: "1 \<notin> set [0, 2 :: nat]" "3 \<notin> set [0, 2 :: nat]" "0 \<in> set [0, 2 :: nat]"
    by simp_all
  have vals: "r_diff redist4_start ! 2 = cnt 10 5 50 True"
      "r_diff redist4_end ! 2 = cnt 30 15 20 True"
      "unat (r_user_surplus redist4_start) - unat (r_user_surplus redist4_end) = 20"
      "unat (r_system_surplus redist4_start) - unat (r_system_surplus redist4_end) = 10"
    by (simp_all add: redist4_start_def redist4_end_def)
  note t = surplus_redistribution [OF run start quota len, of 20 "cnt 10 5 50 True" 10,
      unfolded vis]
  have c: "unat (credited_amount 20 (cnt 10 5 50 True) 100) = 20"
    using t below by (simp add: cnt_def)
  have fr: "r_diff redist4_end ! 0 = r_diff redist4_start ! 0"
      "r_diff redist4_end ! 1 = r_diff redist4_start ! 1"
      "r_diff redist4_end ! 3 = r_diff redist4_start ! 3"
    using t sat out by blast+
  have ref: "(r_diff redist4_end, r_user_surplus redist4_end, r_system_surplus redist4_end)
        = claimed_redistribution 100 [0, 2]
            (r_diff redist4_start, r_user_surplus redist4_start, r_system_surplus redist4_start)"
    using t by blast
  have le: "r_user_surplus redist4_end \<le> r_user_surplus redist4_start"
      "r_system_surplus redist4_end \<le> r_system_surplus redist4_start"
    using t by blast+
  show ?thesis
    using run start quota len vis below c ref fr vals le by blast
qed

section \<open>The loop over the host table\<close>













text \<open>
  C2. \<open>cpu_cnt\<close> is incremented before the cpuset is looked at: with the host lines
  \<open>cpu0\<close> and \<open>cpu1\<close> and the cpuset \<open>0\<close> the loop ends with \<open>cpu_cnt = 2\<close>, and one
  CPU online in the sample.
\<close>

theorem cpu_cnt_counts_outside_cpuset:
  "read_cpu_lines cpuset_0 2 [line_cpu0, line_cpu1, line_intr] parse_start = Inr (parse_end, [])
   \<and> p_cpu_cnt parse_end = 2
   \<and> length (filter online (p_usage parse_end)) = 1
   \<and> length (filter cpuset_0 [0, 1]) = 1"
proof -
  have "read_cpu_lines cpuset_0 2 [line_cpu0, line_cpu1, line_intr] parse_start
          = Inr (parse_end, [])"
    by code_simp
  then show ?thesis
    by (simp add: parse_end_def cnt_def cpuset_0_def)
qed



section \<open>The mutex of the node\<close>

lemma update_view_keeps:
  "locked (fst (update_view e n s d np mc cc)) = locked n \<and>
   cg (fst (update_view e n s d np mc cc)) = cg n"
  by (simp add: update_view_def Let_def reset_if_lower_def reset_proc_stat_node_def
      split: prod.splits option.splits)

lemma cpu_all_line_length: "22 \<le> length (cpu_all_line a b c)"
  by (simp add: cpu_all_line_def)

lemma render_small: "buf_size \<le> 22 \<Longrightarrow> render n tot np mc line f buf_size = None"
  using cpu_all_line_length [of "user_sum tot" "system_sum tot" "idle_sum tot"]
  by (simp add: render_def emit_def)

lemma empty_history_0: "empty_history ! 0 = \<lparr>chain = [], lastcheck = 0\<rparr>" "length empty_history = 100"
  by (simp_all add: empty_history_def)

lemma bucket_a: "bucket env_one_cpu c = 0"
  by (simp add: bucket_def env_one_cpu_def)

lemma new_node_a:
  "new_proc_stat_node allocs_ok (p_usage parse_end) 2 ''/lxc/a'' = Some (node_new\<lparr>locked := False\<rparr>)"
  "new_proc_stat_node allocs_no_diff (p_usage parse_end) 2 ''/lxc/a'' = Some (node_new\<lparr>locked := False\<rparr>)"
  by (simp_all add: new_proc_stat_node_def allocs_ok_def allocs_no_diff_def fresh_def block_def
      memcpy_usage_def zero_view_def zero_counters_def cnt_def parse_end_def node_new_def
      upt_rec [of 0] upt_rec [of 1] upt_rec [of 2] numeral_2_eq_2)

lemma find_or_create_a:
  "find_or_create_proc_stat_node env_one_cpu allocs_ok empty_history (p_usage parse_end) 2 ''/lxc/a''
   = Inr (history_new, Some node_new)"
  "find_or_create_proc_stat_node env_one_cpu allocs_no_diff empty_history (p_usage parse_end) 2 ''/lxc/a''
   = Inr (history_new, Some node_new)"
  by (simp_all add: find_or_create_proc_stat_node_def find_proc_stat_node_def bucket_a
      empty_history_0 new_node_a add_proc_stat_node_def lock_and_expand_def put_node_def
      node_new_def history_new_def Let_def)


lemma parse_start_eq:
  "\<lparr>p_usage = p_usage parse_start, p_curcpu = - 1, p_cpu_cnt = 0, p_line = None, p_log = []\<rparr>
     = parse_start"
  by (simp add: parse_start_def)

lemma read_lines_a:
  "read_cpu_lines cpuset_0 2 [line_cpu0, line_cpu1, line_intr] parse_start = Inr (parse_end, [])"
  by code_simp

lemma working_nprocs_a: "working_nprocs env_one_cpu 2 = 2"
  by (simp add: working_nprocs_def env_one_cpu_def)

lemma history_new_cons:
  "history_new = \<lparr>chain = [node_new], lastcheck = 0\<rparr> # replicate 99 \<lparr>chain = [], lastcheck = 0\<rparr>"
proof -
  have "replicate 100 x = x # replicate 99 x" for x :: cg_proc_stat_head
    using replicate_Suc [of 99 x] by simp
  then show ?thesis by (simp add: history_new_def empty_history_def)
qed

lemma prune_a: "prune_proc_stat_history env_one_cpu history_new = history_new"
  by (simp add: history_new_cons PROC_STAT_PRUNE_INTERVAL_def env_one_cpu_def)

lemma get_node_a: "get_node env_one_cpu history_new ''/lxc/a'' = Some node_new"
  by (simp add: get_node_def bucket_a history_new_cons node_new_def)

lemma a_diff_a: "a_diff allocs_no_diff = None" "a_diff allocs_ok = Some (\<lambda>i. cnt 7 7 7 False)"
  by (simp_all add: allocs_no_diff_def allocs_ok_def fresh_def)

lemma read_no_diff:
  "cpuview_proc_stat env_one_cpu allocs_no_diff empty_history ''/lxc/a'' cpuset_0
     (p_usage parse_start) 2 [line_cpu0, line_cpu1, line_intr] 4096
   = Inr \<lparr>ret = 0, out = [], history = history_new, cg_usage = p_usage parse_end,
          idle_errors = p_log parse_end\<rparr>"
  by (simp add: cpuview_proc_stat_def parse_start_eq read_lines_a working_nprocs_a
      find_or_create_a a_diff_a del: read_cpu_lines.simps)

lemma read_blocked:
  "cpuview_proc_stat env_one_cpu allocs_ok history_new ''/lxc/a'' cpuset_0
     (p_usage parse_start) 2 [line_cpu0, line_cpu1, line_intr] 4096 = Inl Blocked"
proof -
  have f: "find_proc_stat_node env_one_cpu history_new 0 ''/lxc/a'' = (history_new, Some node_new)"
    using get_node_a by (simp add: find_proc_stat_node_def prune_a get_node_def bucket_a)
       (simp add: history_new_cons)
  have "find_or_create_proc_stat_node env_one_cpu allocs_ok history_new (p_usage parse_end) 2 ''/lxc/a''
          = Inl Blocked"
    by (simp add: find_or_create_proc_stat_node_def bucket_a f get_node_a lock_and_expand_def)
       (simp add: node_new_def)
  then show ?thesis
    by (simp add: cpuview_proc_stat_def parse_start_eq read_lines_a working_nprocs_a
        del: read_cpu_lines.simps)
qed

lemma read_truncated:
  "\<exists>r. cpuview_proc_stat env_one_cpu allocs_ok empty_history ''/lxc/a'' cpuset_0
          (p_usage parse_start) 2 [line_cpu0, line_cpu1, line_intr] 10 = Inr r
     \<and> ret r = 0
     \<and> map_option locked (get_node env_one_cpu (history r) ''/lxc/a'') = Some True"
proof -
  obtain n tot where u: "update_view env_one_cpu node_new (p_usage parse_end) (block (\<lambda>i. cnt 7 7 7 False) 2) 2
      (if max_cpu_count env_one_cpu > p_cpu_cnt parse_end then p_cpu_cnt parse_end
       else max_cpu_count env_one_cpu) (p_cpu_cnt parse_end) = (n, tot)"
    by (metis surj_pair)
  have k: "locked n = True" "cg n = ''/lxc/a''"
    using update_view_keeps [of env_one_cpu node_new "p_usage parse_end" "block (\<lambda>i. cnt 7 7 7 False) 2" 2
      "(if max_cpu_count env_one_cpu > p_cpu_cnt parse_end then p_cpu_cnt parse_end
       else max_cpu_count env_one_cpu)" "p_cpu_cnt parse_end"] u
    by (simp_all add: node_new_def)
  have l: "p_line parse_end = Some line_intr" by (simp add: parse_end_def)
  have c: "cpuview_proc_stat env_one_cpu allocs_ok empty_history ''/lxc/a'' cpuset_0
          (p_usage parse_start) 2 [line_cpu0, line_cpu1, line_intr] 10
     = Inr \<lparr>ret = 0, out = [], history = put_node env_one_cpu history_new n,
          cg_usage = p_usage parse_end, idle_errors = p_log parse_end\<rparr>"
    using u l
    by (simp add: cpuview_proc_stat_def parse_start_eq read_lines_a working_nprocs_a
      find_or_create_a a_diff_a render_small Let_def del: read_cpu_lines.simps)
  have g: "get_node env_one_cpu (put_node env_one_cpu history_new n) ''/lxc/a'' = Some n"
    using k by (simp add: get_node_def put_node_def bucket_a history_new_cons node_new_def)
  show ?thesis using c g k by simp
qed

text \<open>
  C3. A read that fails after \<open>find_or_create_proc_stat_node\<close> has locked the node
  returns 0 with the mutex still held. First the allocation of \<open>diff\<close> fails: the read
  returns 0, the node of the cgroup is locked in the history, and the next read of the
  cgroup blocks on the mutex. Then the cache of 10 bytes is too small for the first
  line: the read returns 0 and the node is locked.
\<close>

theorem failed_read_keeps_mutex:
  "(\<exists>r. cpuview_proc_stat env_one_cpu allocs_no_diff empty_history ''/lxc/a'' cpuset_0
          (p_usage parse_start) 2 [line_cpu0, line_cpu1, line_intr] 4096 = Inr r
      \<and> ret r = 0
      \<and> map_option locked (get_node env_one_cpu (history r) ''/lxc/a'') = Some True
      \<and> cpuview_proc_stat env_one_cpu allocs_ok (history r) ''/lxc/a'' cpuset_0
          (p_usage parse_start) 2 [line_cpu0, line_cpu1, line_intr] 4096 = Inl Blocked)
   \<and> (\<exists>r. cpuview_proc_stat env_one_cpu allocs_ok empty_history ''/lxc/a'' cpuset_0
          (p_usage parse_start) 2 [line_cpu0, line_cpu1, line_intr] 10 = Inr r
      \<and> ret r = 0
      \<and> map_option locked (get_node env_one_cpu (history r) ''/lxc/a'') = Some True)"
proof -
  have "locked node_new" by (simp add: node_new_def)
  then show ?thesis
    using read_no_diff read_blocked get_node_a read_truncated by simp
qed

section \<open>Rendering\<close>















section \<open>The view after a reset\<close>

lemma upd_online_same: "(u :: cpuacct_usage)\<lparr>online := online u\<rparr> = u"
  by simp

lemma zero_view_nth:
  "length (zero_view v n) = length v \<and>
   (j < length v \<longrightarrow> zero_view v n ! j = (if int j < n then zero_counters (v ! j) else v ! j))"
proof -
  let ?f = "\<lambda>k. fold (\<lambda>i v. v[i := zero_counters (v ! i)]) [0..<k] v"
  have "length (?f k) = length v \<and>
      (\<forall>j<length v. ?f k ! j = (if j < k then zero_counters (v ! j) else v ! j))" for k
  proof (induction k)
    case 0
    then show ?case by simp
  next
    case (Suc k)
    have st: "?f (Suc k) = (?f k)[k := zero_counters (?f k ! k)]" by simp
    show ?case
    proof (intro conjI allI impI)
      show "length (?f (Suc k)) = length v" using Suc by simp
    next
      fix j assume j: "j < length v"
      show "?f (Suc k) ! j = (if j < Suc k then zero_counters (v ! j) else v ! j)"
        unfolding st using Suc j by (cases "j = k") (simp_all add: nth_list_update)
    qed
  qed
  from this [of "nat n"] show ?thesis
    by (auto simp: zero_view_def)
qed

lemma memcpy_usage_nth:
  "length (memcpy_usage dst src n) = length dst \<and>
   (j < length dst \<longrightarrow> memcpy_usage dst src n ! j = (if int j < n then src ! j else dst ! j))"
  by (simp add: memcpy_usage_def)

lemma diff_step_same:
  assumes "older ! i = newer ! i" "i < length diff"
  shows "diff_step older newer i (diff, acc)
           = (if online (newer ! i) then diff[i := zero_counters (diff ! i)] else diff, acc)"
  using assms by (simp add: diff_step_def zero_counters_def Let_def)

lemma diff_cpu_usage_same:
  assumes "\<forall>j<k. older ! j = newer ! j" "k \<le> length diff"
  shows "\<exists>d. fold (diff_step older newer) [0..<k] (diff, 0) = (d, 0) \<and> length d = length diff
     \<and> (\<forall>j<length diff. d ! j = (if j < k \<and> online (newer ! j) then zero_counters (diff ! j)
                                  else diff ! j))"
  using assms
proof (induction k)
  case 0
  then show ?case by simp
next
  case (Suc k)
  then obtain d where d: "fold (diff_step older newer) [0..<k] (diff, 0) = (d, 0)"
      "length d = length diff"
      "\<forall>j<length diff. d ! j = (if j < k \<and> online (newer ! j) then zero_counters (diff ! j)
                                  else diff ! j)"
    by auto
  have k: "older ! k = newer ! k" "k < length d" using Suc.prems d(2) by auto
  have dk: "d ! k = diff ! k" using d(3) k d(2) by simp
  show ?case
    using d k dk by (auto simp: diff_step_same nth_list_update less_Suc_eq)
qed

lemma surplus_step_same:
  assumes "s_usage st ! c = sample ! c" "c < length (s_usage st)"
      and "online (sample ! c) \<longrightarrow> user (diff ! c) = 0 \<and> system (diff ! c) = 0 \<and> idle (diff ! c) = 0"
  shows "\<exists>k. surplus_step sample diff max_cpus c st = st\<lparr>s_i := k\<rparr>"
proof -
  have "(s_usage st ! c)\<lparr>online := online (sample ! c)\<rparr> = s_usage st ! c"
    using assms(1) by simp
  then have a: "(s_usage st)[c := (s_usage st ! c)\<lparr>online := online (sample ! c)\<rparr>] = s_usage st"
    by (simp only: list_update_id)
  have b: "(s_usage st)[c := (s_usage st ! c)\<lparr>user := user (s_usage st ! c),
             system := system (s_usage st ! c), idle := idle (s_usage st ! c)\<rparr>] = s_usage st"
    by simp
  have o: "online (s_usage st ! c) = online (sample ! c)"
    using assms(1) by simp
  have z: "online (sample ! c) \<Longrightarrow> user (diff ! c) = 0 \<and> system (diff ! c) = 0 \<and> idle (diff ! c) = 0"
    using assms(3) by simp
  show ?thesis
  proof (cases "online (sample ! c)")
    case False
    have "surplus_step sample diff max_cpus c st = st\<lparr>s_i := s_i st\<rparr>"
      unfolding surplus_step_def Let_def a using False o by simp
    then show ?thesis by blast
  next
    case True
    have "surplus_step sample diff max_cpus c st = st\<lparr>s_i := s_i st + 1\<rparr>"
      unfolding surplus_step_def Let_def a using True o z b by simp
    then show ?thesis by blast
  qed
qed

lemma surplus_fold_same:
  assumes "\<forall>c<k. c < length (s_usage st) \<and> s_usage st ! c = sample ! c
             \<and> (online (sample ! c) \<longrightarrow> user (diff ! c) = 0 \<and> system (diff ! c) = 0
                   \<and> idle (diff ! c) = 0)"
  shows "\<exists>i. fold (surplus_step sample diff max_cpus) [0..<k] st = st\<lparr>s_i := i\<rparr>"
  using assms
proof (induction k)
  case 0
  have "st = st\<lparr>s_i := s_i st\<rparr>" by simp
  then show ?case by (metis fold_simps(1) upt_0)
next
  case (Suc k)
  then obtain i where i: "fold (surplus_step sample diff max_cpus) [0..<k] st = st\<lparr>s_i := i\<rparr>"
    by auto
  have "\<exists>j. surplus_step sample diff max_cpus k (st\<lparr>s_i := i\<rparr>) = st\<lparr>s_i := i\<rparr>\<lparr>s_i := j\<rparr>"
    using Suc.prems by (intro surplus_step_same) simp_all
  then show ?case using i by auto
qed

lemma credit_cpu_zero: "credit_cpu 0 x = x"
  by (cases x) (simp add: credit_cpu_def)

lemma redistribute_zero:
  "\<exists>i. redistribute us max_cpus 0 cs st = st\<lparr>r_i := i\<rparr>"
proof (induction cs arbitrary: st)
  case Nil
  have "st = st\<lparr>r_i := r_i st\<rparr>" by simp
  then show ?case by (metis redistribute.simps(1))
next
  case (Cons c cs)
  show ?case
  proof (cases "online (us ! c)")
    case False
    then show ?thesis using Cons [of st] by simp
  next
    case True
    show ?thesis
    proof (cases "r_i st + 1 = max_cpus")
      case True
      then show ?thesis using \<open>online (us ! c)\<close> by auto
    next
      case False
      have "redistribute us max_cpus 0 (c # cs) st
              = redistribute us max_cpus 0 cs (st\<lparr>r_i := r_i st + 1\<rparr>)"
        using True False by (simp add: credit_cpu_zero Let_def)
      then show ?thesis using Cons [of "st\<lparr>r_i := r_i st + 1\<rparr>"] by auto
    qed
  qed
qed


lemma accumulate_cpu_zero:
  assumes "user d = 0" "system d = 0" "idle d = 0"
      and "user (c_view st ! c) = 0" "system (c_view st ! c) = 0" "idle (c_view st ! c) = 0"
  shows "accumulate_cpu d c st = st"
proof -
  have v: "(c_view st ! c)\<lparr>user := user (c_view st ! c), system := system (c_view st ! c),
             idle := idle (c_view st ! c)\<rparr> = c_view st ! c"
    by simp
  have "(c_view st ! c)\<lparr>user := user (c_view st ! c) + user d,
           system := system (c_view st ! c) + system d,
           idle := idle (c_view st ! c) + idle d\<rparr> = c_view st ! c"
    using assms(1-3) v by simp
  then show ?thesis
    using assms by (simp add: accumulate_cpu_def Let_def)
qed

lemma accumulate_zero:
  assumes "\<forall>c\<in>set cs. online (us ! c) \<longrightarrow>
             user (diff ! c) = 0 \<and> system (diff ! c) = 0 \<and> idle (diff ! c) = 0
           \<and> user (c_view st ! c) = 0 \<and> system (c_view st ! c) = 0 \<and> idle (c_view st ! c) = 0"
  shows "\<exists>i. accumulate us diff max_cpus cs st = st\<lparr>c_i := i\<rparr>"
  using assms
proof (induction cs arbitrary: st)
  case Nil
  have "st = st\<lparr>c_i := c_i st\<rparr>" by simp
  then show ?case by (metis accumulate.simps(1))
next
  case (Cons c cs)
  show ?case
  proof (cases "online (us ! c)")
    case False
    then show ?thesis using Cons.IH [of st] Cons.prems by simp
  next
    case True
    show ?thesis
    proof (cases "c_i st + 1 = max_cpus")
      case True
      then show ?thesis using \<open>online (us ! c)\<close> by auto
    next
      case False
      let ?st = "st\<lparr>c_i := c_i st + 1\<rparr>"
      have "accumulate_cpu (diff ! c) c ?st = ?st"
        using Cons.prems True by (intro accumulate_cpu_zero) simp_all
      then have "accumulate us diff max_cpus (c # cs) st = accumulate us diff max_cpus cs ?st"
        using True False by (simp add: Let_def)
      moreover have "\<exists>i. accumulate us diff max_cpus cs ?st = ?st\<lparr>c_i := i\<rparr>"
        using Cons.prems by (intro Cons.IH) simp
      ultimately show ?thesis by auto
    qed
  qed
qed

lemma partial_delta_zero: "partial_delta 0 ex m = 0"
  by (simp add: partial_delta_def round_double_def)

lemma sub_or_zero_0: "sub_or_zero x 0 = x"
  by (simp add: sub_or_zero_def word_greater_zero_iff)

lemma revise_partial_zero:
  assumes "c_diff_user st = 0" "c_diff_system st = 0" "c_diff_idle st = 0"
  shows "revise_partial ex m st = st"
proof -
  let ?c = "c_max_diff_idle_index st"
  have "(c_view st)[?c := (c_view st ! ?c)\<lparr>idle := idle (c_view st ! ?c)\<rparr>] = c_view st"
    by simp
  then show ?thesis
    using assms by (simp add: revise_partial_def partial_delta_zero sub_or_zero_0 Let_def)
qed

lemma plain_step_view:
  "n_view (plain_step us k s)
     = (if online (us ! k) then (n_view s)[k := copy_counters (us ! k) (n_view s ! k)]
        else n_view s)"
  by (simp add: plain_step_def Let_def copy_counters_def)

lemma plain_fold_nth:
  "length (n_view (fold (plain_step us) [0..<k] st)) = length (n_view st) \<and>
   (\<forall>j<length (n_view st). n_view (fold (plain_step us) [0..<k] st) ! j
        = (if j < k \<and> online (us ! j) then copy_counters (us ! j) (n_view st ! j)
           else n_view st ! j))"
proof (induction k)
  case 0
  then show ?case by simp
next
  case (Suc k)
  let ?s = "fold (plain_step us) [0..<k] st"
  have st: "fold (plain_step us) [0..<Suc k] st = plain_step us k ?s" by simp
  have l: "length (n_view ?s) = length (n_view st)" using Suc by simp
  have n: "\<And>j. j < length (n_view st) \<Longrightarrow> n_view ?s ! j
        = (if j < k \<and> online (us ! j) then copy_counters (us ! j) (n_view st ! j)
           else n_view st ! j)"
    using Suc by simp
  show ?case
  proof (intro conjI allI impI)
    show "length (n_view (fold (plain_step us) [0..<Suc k] st)) = length (n_view st)"
      unfolding st plain_step_view using l by simp
  next
    fix j assume j: "j < length (n_view st)"
    show "n_view (fold (plain_step us) [0..<Suc k] st) ! j
        = (if j < Suc k \<and> online (us ! j) then copy_counters (us ! j) (n_view st ! j)
           else n_view st ! j)"
      unfolding st plain_step_view using l n [OF j] j
      by (cases "j = k") (simp_all add: nth_list_update)
  qed
qed

lemma reset_node_facts:
  assumes "nat nprocs \<le> length (usage node)" "nat nprocs \<le> length (view node)"
  shows "length (usage (reset_proc_stat_node node sample nprocs)) = length (usage node)"
    and "length (view (reset_proc_stat_node node sample nprocs)) = length (view node)"
    and "\<And>j. j < nat nprocs \<Longrightarrow> usage (reset_proc_stat_node node sample nprocs) ! j = sample ! j"
    and "\<And>j. j < nat nprocs \<Longrightarrow>
           user (view (reset_proc_stat_node node sample nprocs) ! j) = 0
         \<and> system (view (reset_proc_stat_node node sample nprocs) ! j) = 0
         \<and> idle (view (reset_proc_stat_node node sample nprocs) ! j) = 0"
proof -
  show "length (usage (reset_proc_stat_node node sample nprocs)) = length (usage node)"
    by (simp add: reset_proc_stat_node_def memcpy_usage_nth)
  show "length (view (reset_proc_stat_node node sample nprocs)) = length (view node)"
    by (simp add: reset_proc_stat_node_def zero_view_nth)
next
  fix j assume j: "j < nat nprocs"
  then have a: "j < length (usage node)" "j < length (view node)" "int j < nprocs"
    using assms by linarith+
  show "usage (reset_proc_stat_node node sample nprocs) ! j = sample ! j"
    using memcpy_usage_nth [of "usage node" sample nprocs j] a
    by (simp add: reset_proc_stat_node_def)
  show "user (view (reset_proc_stat_node node sample nprocs) ! j) = 0
         \<and> system (view (reset_proc_stat_node node sample nprocs) ! j) = 0
         \<and> idle (view (reset_proc_stat_node node sample nprocs) ! j) = 0"
    using zero_view_nth [of "view node" nprocs j] a
    by (simp add: reset_proc_stat_node_def zero_counters_def)
qed

lemma update_view_after_reset:
  assumes f: "find (\<lambda>curcpu. online (cg_cpu_usage ! curcpu)) [0..<nat nprocs] = Some i"
      and lt: "user (cg_cpu_usage ! i) < user (usage stat_node ! i)"
      and lu: "nat nprocs \<le> length (usage stat_node)"
      and lv: "nat nprocs \<le> length (view stat_node)"
      and ld: "nat nprocs \<le> length diff0"
  shows "\<exists>d. diff_cpu_usage (usage (reset_proc_stat_node stat_node cg_cpu_usage nprocs))
                cg_cpu_usage diff0 nprocs = (d, 0)
     \<and> (\<forall>j<nat nprocs. online (cg_cpu_usage ! j) \<longrightarrow>
           user (d ! j) = 0 \<and> system (d ! j) = 0 \<and> idle (d ! j) = 0)
     \<and> update_view e stat_node cg_cpu_usage diff0 nprocs max_cpus cpu_cnt =
         (if max_cpus > 0
          then (reset_proc_stat_node stat_node cg_cpu_usage nprocs,
                \<lparr>user_sum = 0, system_sum = 0, idle_sum = 0\<rparr>)
          else (let ns = fold (plain_step (usage (reset_proc_stat_node stat_node cg_cpu_usage nprocs)))
                           [0..<nat nprocs]
                           \<lparr>n_view = view (reset_proc_stat_node stat_node cg_cpu_usage nprocs),
                            n_user_sum = 0, n_system_sum = 0, n_idle_sum = 0\<rparr>
                in ((reset_proc_stat_node stat_node cg_cpu_usage nprocs)\<lparr>view := n_view ns\<rparr>,
                    \<lparr>user_sum = n_user_sum ns, system_sum = n_system_sum ns,
                     idle_sum = n_idle_sum ns\<rparr>)))"
proof -
  let ?node = "reset_proc_stat_node stat_node cg_cpu_usage nprocs"
  have rs: "reset_if_lower stat_node cg_cpu_usage nprocs = ?node"
    using f lt by (simp add: reset_if_lower_def)
  note rf = reset_node_facts [OF lu lv, where sample = cg_cpu_usage]
  have same: "\<forall>j<nat nprocs. usage ?node ! j = cg_cpu_usage ! j"
    using rf(3) by simp
  from diff_cpu_usage_same [OF same ld] obtain d where
    d: "fold (diff_step (usage ?node) cg_cpu_usage) [0..<nat nprocs] (diff0, 0) = (d, 0)"
       "length d = length diff0"
       "\<forall>j<length diff0. d ! j = (if j < nat nprocs \<and> online (cg_cpu_usage ! j)
                                    then zero_counters (diff0 ! j) else diff0 ! j)"
    by blast
  have dz: "\<forall>j<nat nprocs. online (cg_cpu_usage ! j) \<longrightarrow>
           user (d ! j) = 0 \<and> system (d ! j) = 0 \<and> idle (d ! j) = 0"
    using d(3) ld by (auto simp: zero_counters_def)
  have du: "diff_cpu_usage (usage ?node) cg_cpu_usage diff0 nprocs = (d, 0)"
    using d(1) by (simp add: diff_cpu_usage_def)
  let ?sst = "\<lparr>s_usage = usage ?node, s_i = - 1, s_user_surplus = 0, s_system_surplus = 0\<rparr>"
  have "\<forall>c<nat nprocs. c < length (s_usage ?sst) \<and> s_usage ?sst ! c = cg_cpu_usage ! c
             \<and> (online (cg_cpu_usage ! c) \<longrightarrow> user (d ! c) = 0 \<and> system (d ! c) = 0
                   \<and> idle (d ! c) = 0)"
    using same dz rf(1) lu by auto
  from surplus_fold_same [OF this, of max_cpus] obtain k where
    ss: "fold (surplus_step cg_cpu_usage d max_cpus) [0..<nat nprocs] ?sst = ?sst\<lparr>s_i := k\<rparr>"
    by blast
  have un: "?node\<lparr>usage := usage ?node\<rparr> = ?node" by simp
  let ?rst = "\<lparr>r_diff = d, r_i = - 1, r_user_surplus = 0, r_system_surplus = 0\<rparr>"
  obtain k2 where rd: "redistribute (usage ?node) max_cpus 0 [0..<nat nprocs] ?rst = ?rst\<lparr>r_i := k2\<rparr>"
    using redistribute_zero by blast
  let ?cst = "\<lparr>c_view = view ?node, c_i = - 1, c_user_sum = 0, c_system_sum = 0, c_idle_sum = 0,
              c_diff_user = 0, c_diff_system = 0, c_diff_idle = 0,
              c_max_diff_idle = 0, c_max_diff_idle_index = 0\<rparr>"
  have "\<forall>c\<in>set [0..<nat nprocs]. online (usage ?node ! c) \<longrightarrow>
             user (d ! c) = 0 \<and> system (d ! c) = 0 \<and> idle (d ! c) = 0
           \<and> user (c_view ?cst ! c) = 0 \<and> system (c_view ?cst ! c) = 0 \<and> idle (c_view ?cst ! c) = 0"
    using same dz rf(4) by auto
  from accumulate_zero [OF this, of max_cpus] obtain k3 where
    ac: "accumulate (usage ?node) d max_cpus [0..<nat nprocs] ?cst = ?cst\<lparr>c_i := k3\<rparr>"
    by blast
  have rv: "revise_partial (exact_cpu_count e) max_cpus (?cst\<lparr>c_i := k3\<rparr>) = ?cst\<lparr>c_i := k3\<rparr>"
    by (rule revise_partial_zero) simp_all
  have vw: "?node\<lparr>view := view ?node\<rparr> = ?node" by simp
  have "update_view e stat_node cg_cpu_usage diff0 nprocs max_cpus cpu_cnt =
         (if max_cpus > 0
          then (?node, \<lparr>user_sum = 0, system_sum = 0, idle_sum = 0\<rparr>)
          else (let ns = fold (plain_step (usage ?node)) [0..<nat nprocs]
                           \<lparr>n_view = view ?node, n_user_sum = 0, n_system_sum = 0, n_idle_sum = 0\<rparr>
                in (?node\<lparr>view := n_view ns\<rparr>,
                    \<lparr>user_sum = n_user_sum ns, system_sum = n_system_sum ns,
                     idle_sum = n_idle_sum ns\<rparr>)))"
    unfolding update_view_def rs Let_def du
    by (simp add: ss [simplified] rd [simplified] ac [simplified] rv [simplified] un vw)
  then show ?thesis using du dz by (auto simp: Let_def)
qed

text \<open>
  C5 (amended). When the user time of the sample on the first online CPU is below the
  stored usage of that CPU, the node is reset before the deltas are computed: the first
  \<open>nprocs\<close> entries of the usage array are the sample and those of the view have user,
  system and idle equal to zero. The deltas of this read are then zero on every online
  CPU. With \<open>max_cpus > 0\<close> the node after the read is the node after the reset, so
  that the view holds these deltas and nothing older, and the three sums are zero.
  With \<open>max_cpus = 0\<close> the usage is the sample and the view of each online CPU is the
  sample as well, and zero on the other CPUs.
\<close>

theorem reset_rebases_view:
  assumes "find (\<lambda>curcpu. online (cg_cpu_usage ! curcpu)) [0..<nat nprocs] = Some i"
      and "user (cg_cpu_usage ! i) < user (usage stat_node ! i)"
      and "nat nprocs \<le> length (usage stat_node)"
      and "nat nprocs \<le> length (view stat_node)"
      and "nat nprocs \<le> length diff0"
  shows "reset_if_lower stat_node cg_cpu_usage nprocs
           = reset_proc_stat_node stat_node cg_cpu_usage nprocs
     \<and> (\<forall>j<nat nprocs.
           usage (reset_proc_stat_node stat_node cg_cpu_usage nprocs) ! j = cg_cpu_usage ! j
         \<and> user (view (reset_proc_stat_node stat_node cg_cpu_usage nprocs) ! j) = 0
         \<and> system (view (reset_proc_stat_node stat_node cg_cpu_usage nprocs) ! j) = 0
         \<and> idle (view (reset_proc_stat_node stat_node cg_cpu_usage nprocs) ! j) = 0)
     \<and> (\<forall>j<nat nprocs. online (cg_cpu_usage ! j) \<longrightarrow>
           user (fst (diff_cpu_usage (usage (reset_proc_stat_node stat_node cg_cpu_usage nprocs))
                        cg_cpu_usage diff0 nprocs) ! j) = 0
         \<and> system (fst (diff_cpu_usage (usage (reset_proc_stat_node stat_node cg_cpu_usage nprocs))
                        cg_cpu_usage diff0 nprocs) ! j) = 0
         \<and> idle (fst (diff_cpu_usage (usage (reset_proc_stat_node stat_node cg_cpu_usage nprocs))
                        cg_cpu_usage diff0 nprocs) ! j) = 0)
     \<and> (max_cpus > 0 \<longrightarrow>
           update_view e stat_node cg_cpu_usage diff0 nprocs max_cpus cpu_cnt
             = (reset_proc_stat_node stat_node cg_cpu_usage nprocs,
                \<lparr>user_sum = 0, system_sum = 0, idle_sum = 0\<rparr>))
     \<and> (\<not> max_cpus > 0 \<longrightarrow>
           (\<forall>j<nat nprocs.
              usage (fst (update_view e stat_node cg_cpu_usage diff0 nprocs max_cpus cpu_cnt)) ! j
                = cg_cpu_usage ! j
            \<and> user (view (fst (update_view e stat_node cg_cpu_usage diff0 nprocs max_cpus cpu_cnt)) ! j)
                = (if online (cg_cpu_usage ! j) then user (cg_cpu_usage ! j) else 0)
            \<and> system (view (fst (update_view e stat_node cg_cpu_usage diff0 nprocs max_cpus cpu_cnt)) ! j)
                = (if online (cg_cpu_usage ! j) then system (cg_cpu_usage ! j) else 0)
            \<and> idle (view (fst (update_view e stat_node cg_cpu_usage diff0 nprocs max_cpus cpu_cnt)) ! j)
                = (if online (cg_cpu_usage ! j) then idle (cg_cpu_usage ! j) else 0)))"
proof -
  let ?node = "reset_proc_stat_node stat_node cg_cpu_usage nprocs"
  note rf = reset_node_facts [OF assms(3,4), where sample = cg_cpu_usage]
  from update_view_after_reset [OF assms, of e max_cpus cpu_cnt] obtain d where
    d: "diff_cpu_usage (usage ?node) cg_cpu_usage diff0 nprocs = (d, 0)"
       "\<forall>j<nat nprocs. online (cg_cpu_usage ! j) \<longrightarrow>
           user (d ! j) = 0 \<and> system (d ! j) = 0 \<and> idle (d ! j) = 0"
    and u: "update_view e stat_node cg_cpu_usage diff0 nprocs max_cpus cpu_cnt =
         (if max_cpus > 0
          then (?node, \<lparr>user_sum = 0, system_sum = 0, idle_sum = 0\<rparr>)
          else (let ns = fold (plain_step (usage ?node)) [0..<nat nprocs]
                           \<lparr>n_view = view ?node, n_user_sum = 0, n_system_sum = 0, n_idle_sum = 0\<rparr>
                in (?node\<lparr>view := n_view ns\<rparr>,
                    \<lparr>user_sum = n_user_sum ns, system_sum = n_system_sum ns,
                     idle_sum = n_idle_sum ns\<rparr>)))"
    by blast
  have c1: "reset_if_lower stat_node cg_cpu_usage nprocs = ?node"
    using assms(1,2) by (simp add: reset_if_lower_def)
  have c2: "\<forall>j<nat nprocs. usage ?node ! j = cg_cpu_usage ! j
         \<and> user (view ?node ! j) = 0 \<and> system (view ?node ! j) = 0 \<and> idle (view ?node ! j) = 0"
    using rf(3,4) by simp
  have c3: "\<forall>j<nat nprocs. online (cg_cpu_usage ! j) \<longrightarrow>
           user (fst (diff_cpu_usage (usage ?node) cg_cpu_usage diff0 nprocs) ! j) = 0
         \<and> system (fst (diff_cpu_usage (usage ?node) cg_cpu_usage diff0 nprocs) ! j) = 0
         \<and> idle (fst (diff_cpu_usage (usage ?node) cg_cpu_usage diff0 nprocs) ! j) = 0"
    using d by simp
  have c4: "max_cpus > 0 \<longrightarrow>
           update_view e stat_node cg_cpu_usage diff0 nprocs max_cpus cpu_cnt
             = (?node, \<lparr>user_sum = 0, system_sum = 0, idle_sum = 0\<rparr>)"
    using u by simp
  have c5: "usage (fst (update_view e stat_node cg_cpu_usage diff0 nprocs max_cpus cpu_cnt)) ! j
                = cg_cpu_usage ! j
            \<and> user (view (fst (update_view e stat_node cg_cpu_usage diff0 nprocs max_cpus cpu_cnt)) ! j)
                = (if online (cg_cpu_usage ! j) then user (cg_cpu_usage ! j) else 0)
            \<and> system (view (fst (update_view e stat_node cg_cpu_usage diff0 nprocs max_cpus cpu_cnt)) ! j)
                = (if online (cg_cpu_usage ! j) then system (cg_cpu_usage ! j) else 0)
            \<and> idle (view (fst (update_view e stat_node cg_cpu_usage diff0 nprocs max_cpus cpu_cnt)) ! j)
                = (if online (cg_cpu_usage ! j) then idle (cg_cpu_usage ! j) else 0)"
    if nq: "\<not> max_cpus > 0" and j: "j < nat nprocs" for j
  proof -
    let ?ns = "fold (plain_step (usage ?node)) [0..<nat nprocs]
                 \<lparr>n_view = view ?node, n_user_sum = 0, n_system_sum = 0, n_idle_sum = 0\<rparr>"
    have f: "fst (update_view e stat_node cg_cpu_usage diff0 nprocs max_cpus cpu_cnt)
               = ?node\<lparr>view := n_view ?ns\<rparr>"
      using u nq by (simp add: Let_def)
    have jl: "j < length (view ?node)" using j rf(2) assms(4) by simp
    have v: "n_view ?ns ! j = (if online (usage ?node ! j)
                                then copy_counters (usage ?node ! j) (view ?node ! j)
                                else view ?node ! j)"
      using plain_fold_nth [of "usage ?node" "nat nprocs"
          "\<lparr>n_view = view ?node, n_user_sum = 0, n_system_sum = 0, n_idle_sum = 0\<rparr>"] jl j
      by simp
    show ?thesis
      unfolding f using v c2 j by (simp add: copy_counters_def)
  qed
  show ?thesis
    using c1 c2 c3 c4 c5 by blast
qed

theorem reset_rebases_view_witness:
  "find (\<lambda>curcpu. online (sample_restarted ! curcpu)) [0..<nat 1] = Some 0
   \<and> user (sample_restarted ! 0) < user (usage node_old ! 0)
   \<and> nat 1 \<le> length (usage node_old) \<and> nat 1 \<le> length (view node_old)
   \<and> nat 1 \<le> length [cnt 7 7 7 False]
   \<and> update_view env_one_cpu node_old sample_restarted [cnt 7 7 7 False] 1 1 1
       = (reset_proc_stat_node node_old sample_restarted 1, tot_zero)
   \<and> usage (reset_proc_stat_node node_old sample_restarted 1) ! 0 = sample_restarted ! 0
   \<and> idle (view (reset_proc_stat_node node_old sample_restarted 1) ! 0) = 0"
proof -
  have h1: "find (\<lambda>curcpu. online (sample_restarted ! curcpu)) [0..<nat 1] = Some 0"
    by (simp add: sample_restarted_def cnt_def)
  have h2: "user (sample_restarted ! 0) < user (usage node_old ! 0)"
    by (simp add: sample_restarted_def node_old_def cnt_def)
  have h3: "nat 1 \<le> length (usage node_old)" "nat 1 \<le> length (view node_old)"
      "nat 1 \<le> length [cnt 7 7 7 False]"
    by (simp_all add: node_old_def)
  have q: "(1 :: int) > 0" "(0 :: nat) < nat 1" by simp_all
  from reset_rebases_view [OF h1 h2 h3, of 1 env_one_cpu 1] q h1 h2 h3
  show ?thesis by (simp add: tot_zero_def)
qed

text \<open>
  C5 as stated fails without a quota: the cgroup restarts at user 5, system 2; the
  deltas of the read are zero, and the view after the read is the sample, user 5,
  not the delta.
\<close>

theorem reset_without_quota_counterexample:
  "online (sample_restarted ! 0)
   \<and> user (sample_restarted ! 0) < user (usage node_old ! 0)
   \<and> update_view env_no_quota node_old sample_restarted [cnt 7 7 7 False] 1 0 1
       = (node_plain, tot_plain)
   \<and> fst (diff_cpu_usage (usage (reset_proc_stat_node node_old sample_restarted 1))
            sample_restarted [cnt 7 7 7 False] 1) = [cnt 0 0 0 False]
   \<and> user (view node_plain ! 0) = 5
   \<and> user (view node_plain ! 0) \<noteq> user ([cnt 0 0 0 False] ! 0)"
proof -
  have a: "update_view env_no_quota node_old sample_restarted [cnt 7 7 7 False] 1 0 1
       = (node_plain, tot_plain)"
    by code_simp
  have b: "fst (diff_cpu_usage (usage (reset_proc_stat_node node_old sample_restarted 1))
            sample_restarted [cnt 7 7 7 False] 1) = [cnt 0 0 0 False]"
    by code_simp
  show ?thesis
    using a b by (simp add: sample_restarted_def node_old_def node_plain_def cnt_def)
qed

section \<open>The view from one read to the next\<close>

lemma diff_step_nth:
  assumes "i < length diff"
  shows "length (fst (diff_step older newer i (diff, acc))) = length diff
     \<and> fst (diff_step older newer i (diff, acc)) ! j
         = (if j = i \<and> online (newer ! i)
            then (diff ! i)\<lparr>
                 user := (if user (newer ! i) > user (older ! i)
                          then user (newer ! i) - user (older ! i) else 0),
                 system := (if system (newer ! i) > system (older ! i)
                          then system (newer ! i) - system (older ! i) else 0),
                 idle := (if idle (newer ! i) > idle (older ! i)
                          then idle (newer ! i) - idle (older ! i) else 0)\<rparr>
            else diff ! j)"
  using assms by (simp add: diff_step_def Let_def)

lemma diff_fold_nth:
  assumes "k \<le> length diff"
  shows "length (fst (fold (diff_step older newer) [0..<k] (diff, acc))) = length diff
     \<and> (\<forall>j. fst (fold (diff_step older newer) [0..<k] (diff, acc)) ! j
         = (if j < k \<and> online (newer ! j)
            then (diff ! j)\<lparr>
                 user := (if user (newer ! j) > user (older ! j)
                          then user (newer ! j) - user (older ! j) else 0),
                 system := (if system (newer ! j) > system (older ! j)
                          then system (newer ! j) - system (older ! j) else 0),
                 idle := (if idle (newer ! j) > idle (older ! j)
                          then idle (newer ! j) - idle (older ! j) else 0)\<rparr>
            else diff ! j))"
  using assms
proof (induction k)
  case 0
  then show ?case by simp
next
  case (Suc k)
  obtain a b where ab: "fold (diff_step older newer) [0..<k] (diff, acc) = (a, b)"
    by (cases "fold (diff_step older newer) [0..<k] (diff, acc)")
  have ih: "length a = length diff"
    "\<And>j. a ! j = (if j < k \<and> online (newer ! j)
            then (diff ! j)\<lparr>
                 user := (if user (newer ! j) > user (older ! j)
                          then user (newer ! j) - user (older ! j) else 0),
                 system := (if system (newer ! j) > system (older ! j)
                          then system (newer ! j) - system (older ! j) else 0),
                 idle := (if idle (newer ! j) > idle (older ! j)
                          then idle (newer ! j) - idle (older ! j) else 0)\<rparr>
            else diff ! j)"
    using Suc ab by simp_all
  have k: "k < length a" using Suc.prems ih(1) by simp
  have ak: "a ! k = diff ! k" using ih(2) [of k] by simp
  have st: "fold (diff_step older newer) [0..<Suc k] (diff, acc) = diff_step older newer k (a, b)"
    using ab by simp
  show ?case
    unfolding st using diff_step_nth [OF k, of older newer b] ih ak
    by (auto simp: less_Suc_eq)
qed

lemma sub_le_word: "(if (y::u64) > x then y - x else 0) \<le> y"
  by (simp add: word_sub_le less_imp_le)

lemma diff_cpu_usage_bounds:
  assumes "nat n \<le> length diff0" "diff_cpu_usage older newer diff0 n = (diff, total_sum)"
  shows "length diff = length diff0
     \<and> (\<forall>j<nat n. online (newer ! j) \<longrightarrow>
           user (diff ! j) \<le> user (newer ! j) \<and> system (diff ! j) \<le> system (newer ! j)
         \<and> idle (diff ! j) \<le> idle (newer ! j))"
proof -
  have d: "diff = fst (fold (diff_step older newer) [0..<nat n] (diff0, 0))"
    using assms(2) by (simp add: diff_cpu_usage_def)
  show ?thesis
    unfolding d using diff_fold_nth [OF assms(1), of older newer 0]
    by (simp add: sub_le_word)
qed

lemma surplus_step_usage:
  assumes "c < length (s_usage st)"
  shows "length (s_usage (surplus_step sample diff mc c st)) = length (s_usage st)
     \<and> online (s_usage (surplus_step sample diff mc c st) ! c) = online (sample ! c)
     \<and> (\<forall>j. j \<noteq> c \<longrightarrow> s_usage (surplus_step sample diff mc c st) ! j = s_usage st ! j)"
  using assms by (simp add: surplus_step_def Let_def)

lemma surplus_fold_usage:
  assumes "k \<le> length (s_usage st)"
  shows "length (s_usage (fold (surplus_step sample diff mc) [0..<k] st)) = length (s_usage st)
     \<and> (\<forall>j. online (s_usage (fold (surplus_step sample diff mc) [0..<k] st) ! j)
            = (if j < k then online (sample ! j) else online (s_usage st ! j)))"
  using assms
proof (induction k)
  case 0
  then show ?case by simp
next
  case (Suc k)
  let ?s = "fold (surplus_step sample diff mc) [0..<k] st"
  have ih: "length (s_usage ?s) = length (s_usage st)"
     "\<And>j. online (s_usage ?s ! j) = (if j < k then online (sample ! j) else online (s_usage st ! j))"
    using Suc by simp_all
  have k: "k < length (s_usage ?s)" using Suc.prems ih(1) by simp
  have st: "fold (surplus_step sample diff mc) [0..<Suc k] st = surplus_step sample diff mc k ?s"
    by simp
  note s = surplus_step_usage [OF k, of sample diff mc]
  show ?case
  proof (intro conjI allI)
    show "length (s_usage (fold (surplus_step sample diff mc) [0..<Suc k] st)) = length (s_usage st)"
      unfolding st using s ih(1) by simp
  next
    fix j
    show "online (s_usage (fold (surplus_step sample diff mc) [0..<Suc k] st) ! j)
            = (if j < Suc k then online (sample ! j) else online (s_usage st ! j))"
      unfolding st using s ih(2) [of j] by (cases "j = k") (simp_all add: less_Suc_eq)
  qed
qed

lemma unat_plus_le: "unat ((a::u64) + b) \<le> unat a + unat b"
  by (simp add: unat_word_ariths)

lemma claimed_credit_bounds:
  assumes "claimed_credit thr (pu, ps, d) = (pu', ps', d')"
  shows "unat (user d') \<le> unat (user d) + unat (idle d)
     \<and> unat (system d') \<le> unat (system d) + unat (idle d)
     \<and> unat (idle d') \<le> unat (idle d)"
proof -
  have c: "credit_cpu thr (pu, ps, d) = (pu', ps', d')"
    using assms by (simp add: credit_cpu_claimed)
  note f = credit_cpu_facts [OF c]
  have i: "unat (idle d') \<le> unat (idle d)"
    using f by (simp add: word_le_nat_alt)
  have u: "unat (user d' - user d) \<le> unat (idle d)"
      and s: "unat (system d' - system d) \<le> unat (idle d)"
    using f i by linarith+
  have "unat (user d + (user d' - user d)) \<le> unat (user d) + unat (user d' - user d)"
       "unat (system d + (system d' - system d)) \<le> unat (system d) + unat (system d' - system d)"
    by (rule unat_plus_le)+
  then show ?thesis using u s i by simp
qed

lemma claimed_redistribution_bounds:
  assumes d: "distinct V" and l: "\<forall>i\<in>set V. i < length diff"
  shows "unat (user (fst (claimed_redistribution thr V (diff, pu, ps)) ! j))
           \<le> unat (user (diff ! j)) + unat (idle (diff ! j))
     \<and> unat (system (fst (claimed_redistribution thr V (diff, pu, ps)) ! j))
           \<le> unat (system (diff ! j)) + unat (idle (diff ! j))
     \<and> unat (idle (fst (claimed_redistribution thr V (diff, pu, ps)) ! j))
           \<le> unat (idle (diff ! j))"
proof (cases "j \<in> set V")
  case False
  then show ?thesis
    using claimed_redistribution_frame [of thr V "(diff, pu, ps)"] by simp
next
  case True
  then obtain pre post where v: "V = pre @ j # post"
    by (meson split_list)
  obtain dpre pu1 ps1 where p: "claimed_redistribution thr pre (diff, pu, ps) = (dpre, pu1, ps1)"
    by (metis prod_cases3)
  have jl: "j < length diff" using True l by simp
  obtain a b d' where cr: "claimed_credit thr (pu1, ps1, diff ! j) = (a, b, d')"
    by (metis prod_cases3)
  have "fst (claimed_redistribution thr V (diff, pu, ps)) ! j = d'"
    using claimed_redistribution_at [OF v d jl p] cr by simp
  then show ?thesis using claimed_credit_bounds [OF cr] by simp
qed

lemma accumulate_cpu_fields:
  "c_view (accumulate_cpu x c st) = (c_view st)[c := add_counters (c_view st ! c) x]
   \<and> c_i (accumulate_cpu x c st) = c_i st
   \<and> c_max_diff_idle (accumulate_cpu x c st)
        = (if idle x > c_max_diff_idle st then idle x else c_max_diff_idle st)
   \<and> c_max_diff_idle_index (accumulate_cpu x c st)
        = (if idle x > c_max_diff_idle st then c else c_max_diff_idle_index st)"
  by (simp add: accumulate_cpu_def add_counters_def Let_def)

lemma max_step:
  fixes m m0 m1 :: u64 and k k0 k1 c :: nat
  assumes "m1 = (if x c > m0 then x c else m0)" "k1 = (if x c > m0 then c else k0)"
      and "(m = m1 \<and> k = k1 \<and> (\<forall>c'\<in>P. x c' \<le> m1))
         \<or> (k \<in> P \<and> m = x k \<and> m1 < m \<and> (\<forall>c'\<in>P. x c' \<le> m)
              \<and> (\<forall>c'\<in>P. c' < k \<longrightarrow> x c' < m))"
      and "\<forall>c'\<in>P. c < c'"
  shows "(m = m0 \<and> k = k0 \<and> (\<forall>c'\<in>insert c P. x c' \<le> m0))
         \<or> (k \<in> insert c P \<and> m = x k \<and> m0 < m \<and> (\<forall>c'\<in>insert c P. x c' \<le> m)
              \<and> (\<forall>c'\<in>insert c P. c' < k \<longrightarrow> x c' < m))"
proof (cases "x c > m0")
  case True
  then have s: "m1 = x c" "k1 = c" using assms(1,2) by simp_all
  from assms(3) show ?thesis
  proof
    assume "m = m1 \<and> k = k1 \<and> (\<forall>c'\<in>P. x c' \<le> m1)"
    then show ?thesis using s True assms(4) by auto
  next
    assume a: "k \<in> P \<and> m = x k \<and> m1 < m \<and> (\<forall>c'\<in>P. x c' \<le> m)
              \<and> (\<forall>c'\<in>P. c' < k \<longrightarrow> x c' < m)"
    then have "x c < m" using s by auto
    moreover from this have "m0 < m" using True by auto
    ultimately show ?thesis using a by auto
  qed
next
  case False
  then have s: "m1 = m0" "k1 = k0" using assms(1,2) by simp_all
  have sle: "x c \<le> m0" using False by (simp add: not_less)
  from assms(3) show ?thesis
  proof
    assume "m = m1 \<and> k = k1 \<and> (\<forall>c'\<in>P. x c' \<le> m1)"
    then show ?thesis using s sle by auto
  next
    assume a: "k \<in> P \<and> m = x k \<and> m1 < m \<and> (\<forall>c'\<in>P. x c' \<le> m)
              \<and> (\<forall>c'\<in>P. c' < k \<longrightarrow> x c' < m)"
    then have "m0 < m" using s by auto
    moreover from this have "x c < m" using sle by auto
    ultimately show ?thesis using a sle by auto
  qed
qed

lemma accumulate_claimed:
  assumes "c_i st + 1 \<le> mc" "sorted_wrt (<) cs" "\<forall>c\<in>set cs. c < length (c_view st)"
  shows "length (c_view (accumulate us d mc cs st)) = length (c_view st)
     \<and> (\<forall>j. c_view (accumulate us d mc cs st) ! j
            = (if j \<in> set (take (nat (mc - (c_i st + 1))) (filter (\<lambda>c. online (us ! c)) cs))
               then add_counters (c_view st ! j) (d ! j) else c_view st ! j))
     \<and> ((c_max_diff_idle (accumulate us d mc cs st) = c_max_diff_idle st
          \<and> c_max_diff_idle_index (accumulate us d mc cs st) = c_max_diff_idle_index st
          \<and> (\<forall>c\<in>set (take (nat (mc - (c_i st + 1))) (filter (\<lambda>c. online (us ! c)) cs)).
                idle (d ! c) \<le> c_max_diff_idle st))
        \<or> (c_max_diff_idle_index (accumulate us d mc cs st)
              \<in> set (take (nat (mc - (c_i st + 1))) (filter (\<lambda>c. online (us ! c)) cs))
          \<and> c_max_diff_idle (accumulate us d mc cs st)
              = idle (d ! c_max_diff_idle_index (accumulate us d mc cs st))
          \<and> c_max_diff_idle st < c_max_diff_idle (accumulate us d mc cs st)
          \<and> (\<forall>c\<in>set (take (nat (mc - (c_i st + 1))) (filter (\<lambda>c. online (us ! c)) cs)).
                idle (d ! c) \<le> c_max_diff_idle (accumulate us d mc cs st))
          \<and> (\<forall>c\<in>set (take (nat (mc - (c_i st + 1))) (filter (\<lambda>c. online (us ! c)) cs)).
                c < c_max_diff_idle_index (accumulate us d mc cs st) \<longrightarrow>
                idle (d ! c) < c_max_diff_idle (accumulate us d mc cs st))))"
  using assms
proof (induction cs arbitrary: st)
  case Nil
  then show ?case by simp
next
  case (Cons c cs)
  have srt: "sorted_wrt (<) cs" and gt: "\<forall>c'\<in>set cs. c < c'"
    using Cons.prems(2) by simp_all
  have lens: "\<forall>c\<in>set cs. c < length (c_view st)" and cl: "c < length (c_view st)"
    using Cons.prems(3) by simp_all
  show ?case
  proof (cases "online (us ! c)")
    case False
    then show ?thesis using Cons.IH [OF Cons.prems(1) srt lens] by simp
  next
    case True
    show ?thesis
    proof (cases "c_i st + 1 = mc")
      case True
      then show ?thesis using \<open>online (us ! c)\<close> by simp
    next
      case False
      then have lt: "c_i st + 1 < mc" using Cons.prems(1) by simp
      let ?st1 = "accumulate_cpu (d ! c) c (st\<lparr>c_i := c_i st + 1\<rparr>)"
      let ?P1 = "take (nat (mc - (c_i ?st1 + 1))) (filter (\<lambda>c. online (us ! c)) cs)"
      let ?res = "accumulate us d mc cs ?st1"
      have eq: "accumulate us d mc (c # cs) st = ?res"
        using True False by (simp add: Let_def)
      note f = accumulate_cpu_fields [of "d ! c" c "st\<lparr>c_i := c_i st + 1\<rparr>"]
      have v1: "c_view ?st1 = (c_view st)[c := add_counters (c_view st ! c) (d ! c)]"
        and i1: "c_i ?st1 = c_i st + 1"
        and m1: "c_max_diff_idle ?st1
                   = (if idle (d ! c) > c_max_diff_idle st then idle (d ! c) else c_max_diff_idle st)"
        and k1: "c_max_diff_idle_index ?st1
                   = (if idle (d ! c) > c_max_diff_idle st then c else c_max_diff_idle_index st)"
        using f by simp_all
      have n: "nat (mc - (c_i st + 1)) = Suc (nat (mc - (c_i ?st1 + 1)))"
        using lt i1 by simp
      have tk: "take (nat (mc - (c_i st + 1))) (filter (\<lambda>c. online (us ! c)) (c # cs)) = c # ?P1"
        unfolding n using True by simp
      have p1: "c_i ?st1 + 1 \<le> mc" using lt i1 by simp
      have l1: "\<forall>c\<in>set cs. c < length (c_view ?st1)" using lens v1 by simp
      note ih = Cons.IH [OF p1 srt l1]
      have sub: "set ?P1 \<subseteq> set cs"
        by (meson filter_is_subset order_trans set_take_subset)
      have cn: "c \<notin> set ?P1" using sub gt by auto
      have gtP: "\<forall>c'\<in>set ?P1. c < c'" using sub gt by auto
      have len: "length (c_view ?res) = length (c_view st)"
        using ih v1 by simp
      have nth: "c_view ?res ! j
            = (if j \<in> set (c # ?P1) then add_counters (c_view st ! j) (d ! j) else c_view st ! j)"
        for j
      proof (cases "j = c")
        case True
        have "c_view ?res ! c = c_view ?st1 ! c" using ih cn by simp
        then show ?thesis using True v1 cl by simp
      next
        case False
        have "c_view ?res ! j
            = (if j \<in> set ?P1 then add_counters (c_view ?st1 ! j) (d ! j) else c_view ?st1 ! j)"
          using ih by blast
        then show ?thesis using False v1 by simp
      qed
      have mxc: "(c_max_diff_idle ?res = c_max_diff_idle st
            \<and> c_max_diff_idle_index ?res = c_max_diff_idle_index st
            \<and> (\<forall>c'\<in>set (c # ?P1). idle (d ! c') \<le> c_max_diff_idle st))
         \<or> (c_max_diff_idle_index ?res \<in> set (c # ?P1)
            \<and> c_max_diff_idle ?res = idle (d ! c_max_diff_idle_index ?res)
            \<and> c_max_diff_idle st < c_max_diff_idle ?res
            \<and> (\<forall>c'\<in>set (c # ?P1). idle (d ! c') \<le> c_max_diff_idle ?res)
            \<and> (\<forall>c'\<in>set (c # ?P1). c' < c_max_diff_idle_index ?res \<longrightarrow>
                   idle (d ! c') < c_max_diff_idle ?res))"
        using max_step [where x = "\<lambda>c. idle (d ! c)" and c = c and P = "set ?P1"
            and m = "c_max_diff_idle ?res" and k = "c_max_diff_idle_index ?res"
            and ?m0.0 = "c_max_diff_idle st" and ?k0.0 = "c_max_diff_idle_index st"
            and ?m1.0 = "c_max_diff_idle ?st1" and ?k1.0 = "c_max_diff_idle_index ?st1"]
          m1 k1 gtP ih
        by simp
      show ?thesis
        unfolding eq tk using len nth mxc by blast
    qed
  qed
qed

lemma revise_partial_view:
  assumes "j < length (c_view st)"
  shows "length (c_view (revise_partial ex m st)) = length (c_view st)
   \<and> c_max_diff_idle_index (revise_partial ex m st) = c_max_diff_idle_index st
   \<and> user (c_view (revise_partial ex m st) ! j) = user (c_view st ! j)
   \<and> system (c_view (revise_partial ex m st) ! j) = system (c_view st ! j)
   \<and> ((\<not> ex < of_int m \<or> j \<noteq> c_max_diff_idle_index st) \<longrightarrow>
        idle (c_view (revise_partial ex m st) ! j) = idle (c_view st ! j))
   \<and> idle (c_view (revise_partial ex m st) ! j) \<le> idle (c_view st ! j)"
proof -
  have s: "sub_or_zero x y \<le> x" for x y :: u64
    by (simp add: sub_or_zero_def word_sub_le less_imp_le)
  show ?thesis
    using assms s
    by (cases "j = c_max_diff_idle_index st") (simp_all add: revise_partial_def Let_def)
qed

lemma length_revise_partial: "length (c_view (revise_partial ex m st)) = length (c_view st)"
  by (simp add: revise_partial_def Let_def)

lemma update_view_quota:
  assumes nr: "reset_if_lower node0 sample nprocs = node0"
      and mc: "0 < max_cpus"
      and uv: "update_view e node0 sample diff0 nprocs max_cpus cpu_cnt = (node', tot)"
  shows "cg node' = cg node0 \<and> locked node' = locked node0 \<and> cpu_count node' = cpu_count node0
     \<and> usage node' = s_usage (fold (surplus_step sample
                         (fst (diff_cpu_usage (usage node0) sample diff0 nprocs)) max_cpus)
                         [0..<nat nprocs]
                         \<lparr>s_usage = usage node0, s_i = - 1,
                          s_user_surplus = 0, s_system_surplus = 0\<rparr>)
     \<and> view node' = c_view (revise_partial (exact_cpu_count e) max_cpus
                        (accumulate (usage node')
                           (redistributed_diff node0 sample diff0 nprocs max_cpus cpu_cnt)
                           max_cpus [0..<nat nprocs]
                           \<lparr>c_view = view node0, c_i = - 1,
                            c_user_sum = 0, c_system_sum = 0, c_idle_sum = 0,
                            c_diff_user = 0, c_diff_system = 0, c_diff_idle = 0,
                            c_max_diff_idle = 0, c_max_diff_idle_index = 0\<rparr>))"
proof -
  obtain diff total_sum where df: "diff_cpu_usage (usage node0) sample diff0 nprocs = (diff, total_sum)"
    by (cases "diff_cpu_usage (usage node0) sample diff0 nprocs")
  show ?thesis
    using uv mc unfolding update_view_def redistributed_diff_def nr Let_def df
    by auto
qed

lemma redistributed_diff_claimed:
  assumes nr: "reset_if_lower node0 sample nprocs = node0"
      and mc: "0 < max_cpus"
      and df: "diff_cpu_usage (usage node0) sample diff0 nprocs = (diff, total_sum)"
      and us: "us = s_usage (fold (surplus_step sample diff max_cpus) [0..<nat nprocs]
                         \<lparr>s_usage = usage node0, s_i = - 1,
                          s_user_surplus = 0, s_system_surplus = 0\<rparr>)"
  shows "\<exists>thr pu ps. redistributed_diff node0 sample diff0 nprocs max_cpus cpu_cnt
           = fst (claimed_redistribution thr (claimed_cpus us nprocs max_cpus) (diff, pu, ps))"
proof -
  let ?ss = "fold (surplus_step sample diff max_cpus) [0..<nat nprocs]
                         \<lparr>s_usage = usage node0, s_i = - 1,
                          s_user_surplus = 0, s_system_surplus = 0\<rparr>"
  let ?thr = "total_sum div word_of_int cpu_cnt * word_of_int max_cpus"
  let ?st = "\<lparr>r_diff = diff, r_i = - 1, r_user_surplus = s_user_surplus ?ss,
              r_system_surplus = s_system_surplus ?ss\<rparr>"
  have "redistributed_diff node0 sample diff0 nprocs max_cpus cpu_cnt
          = r_diff (redistribute us max_cpus ?thr [0..<nat nprocs] ?st)"
    unfolding redistributed_diff_def nr Let_def df us by simp
  also have "\<dots> = fst (claimed_redistribution ?thr (claimed_cpus us nprocs max_cpus)
                        (diff, s_user_surplus ?ss, s_system_surplus ?ss))"
    using redistribute_claimed [of ?st max_cpus us ?thr "[0..<nat nprocs]"] mc
    unfolding claimed_cpus_def online_cpus_def
    by (metis (no_types, lifting) fst_conv add.commute add_uminus_conv_diff diff_zero
        less_imp_le redist_state.select_convs(1,2,3,4) diff_self)
  finally show ?thesis by blast
qed

lemma update_view_char:
  assumes nr: "reset_if_lower node0 sample nprocs = node0"
      and mc: "0 < max_cpus"
      and uv: "update_view e node0 sample diff0 nprocs max_cpus cpu_cnt = (node', tot)"
      and lv: "nat nprocs \<le> length (view node0)"
      and lu: "nat nprocs \<le> length (usage node0)"
      and ld: "nat nprocs \<le> length diff0"
      and d: "d = redistributed_diff node0 sample diff0 nprocs max_cpus cpu_cnt"
      and V: "V = claimed_cpus (usage node') nprocs max_cpus"
  shows "cg node' = cg node0 \<and> locked node' = locked node0
     \<and> cpu_count node' = cpu_count node0
     \<and> length (usage node') = length (usage node0)
     \<and> length (view node') = length (view node0)
     \<and> V = claimed_cpus sample nprocs max_cpus
     \<and> (\<forall>c\<in>set V. c < nat nprocs \<and> online (sample ! c))
     \<and> (\<forall>c\<in>set V. unat (user (d ! c)) \<le> unat (user (sample ! c)) + unat (idle (sample ! c))
              \<and> unat (system (d ! c)) \<le> unat (system (sample ! c)) + unat (idle (sample ! c))
              \<and> unat (idle (d ! c)) \<le> unat (idle (sample ! c)))
     \<and> (\<exists>k. ((k \<in> set V \<and> 0 < idle (d ! k) \<and> (\<forall>c\<in>set V. idle (d ! c) \<le> idle (d ! k))
                 \<and> (\<forall>c\<in>set V. c < k \<longrightarrow> idle (d ! c) < idle (d ! k)))
              \<or> (k = 0 \<and> (\<forall>c\<in>set V. idle (d ! c) = 0)))
          \<and> (\<forall>j<length (view node0).
                user (view node' ! j)
                  = user (view node0 ! j) + (if j \<in> set V then user (d ! j) else 0)
              \<and> system (view node' ! j)
                  = system (view node0 ! j) + (if j \<in> set V then system (d ! j) else 0)
              \<and> (j \<noteq> k \<or> \<not> exact_cpu_count e < of_int max_cpus \<longrightarrow>
                   idle (view node' ! j)
                     = idle (view node0 ! j) + (if j \<in> set V then idle (d ! j) else 0))
              \<and> idle (view node' ! j)
                  \<le> idle (view node0 ! j) + (if j \<in> set V then idle (d ! j) else 0)))"
proof -
  obtain diff total_sum where df: "diff_cpu_usage (usage node0) sample diff0 nprocs = (diff, total_sum)"
    by (cases "diff_cpu_usage (usage node0) sample diff0 nprocs")
  let ?sst = "\<lparr>s_usage = usage node0, s_i = - 1, s_user_surplus = 0, s_system_surplus = 0\<rparr>"
  let ?cst = "\<lparr>c_view = view node0, c_i = - 1,
               c_user_sum = 0, c_system_sum = 0, c_idle_sum = 0,
               c_diff_user = 0, c_diff_system = 0, c_diff_idle = 0,
               c_max_diff_idle = 0, c_max_diff_idle_index = 0\<rparr>"
  define acc where "acc = accumulate (usage node') d max_cpus [0..<nat nprocs] ?cst"
  define k where "k = c_max_diff_idle_index acc"
  note q = update_view_quota [OF nr mc uv]
  have us: "usage node' = s_usage (fold (surplus_step sample diff max_cpus) [0..<nat nprocs] ?sst)"
    using q df by simp
  have vw: "view node' = c_view (revise_partial (exact_cpu_count e) max_cpus acc)"
    using q unfolding acc_def d by simp
  have on: "\<And>j. j < nat nprocs \<Longrightarrow> online (usage node' ! j) = online (sample ! j)"
    unfolding us using surplus_fold_usage [of "nat nprocs" ?sst sample diff max_cpus] lu by simp
  have lus: "length (usage node') = length (usage node0)"
    unfolding us using surplus_fold_usage [of "nat nprocs" ?sst sample diff max_cpus] lu by simp
  have Vb: "\<forall>c\<in>set V. c < nat nprocs \<and> online (sample ! c)"
    unfolding V using claimed_cpus_bound [of _ "usage node'" nprocs max_cpus] on by blast
  have Vd: "distinct V" unfolding V by (rule claimed_cpus_distinct)
  have Vs: "V = claimed_cpus sample nprocs max_cpus"
  proof -
    have "filter (\<lambda>c. online (usage node' ! c)) [0..<nat nprocs]
            = filter (\<lambda>c. online (sample ! c)) [0..<nat nprocs]"
      by (rule filter_cong) (simp_all add: on)
    then show ?thesis unfolding V claimed_cpus_def online_cpus_def by simp
  qed
  have ldf: "length diff = length diff0"
    and rawb: "\<forall>j<nat nprocs. online (sample ! j) \<longrightarrow>
           user (diff ! j) \<le> user (sample ! j) \<and> system (diff ! j) \<le> system (sample ! j)
         \<and> idle (diff ! j) \<le> idle (sample ! j)"
    using diff_cpu_usage_bounds [OF ld df] by simp_all
  obtain thr pu ps where dc: "d = fst (claimed_redistribution thr V (diff, pu, ps))"
    using redistributed_diff_claimed [OF nr mc df us, of cpu_cnt] unfolding d V by blast
  have Vl: "\<forall>i\<in>set V. i < length diff" using Vb ldf ld by auto
  have bnd: "\<forall>c\<in>set V. unat (user (d ! c)) \<le> unat (user (sample ! c)) + unat (idle (sample ! c))
              \<and> unat (system (d ! c)) \<le> unat (system (sample ! c)) + unat (idle (sample ! c))
              \<and> unat (idle (d ! c)) \<le> unat (idle (sample ! c))"
  proof
    fix c assume c: "c \<in> set V"
    note b = claimed_redistribution_bounds [OF Vd Vl, of thr pu ps c, folded dc]
    have r: "unat (user (diff ! c)) \<le> unat (user (sample ! c))"
        "unat (system (diff ! c)) \<le> unat (system (sample ! c))"
        "unat (idle (diff ! c)) \<le> unat (idle (sample ! c))"
      using rawb Vb c by (simp_all add: word_le_nat_alt)
    show "unat (user (d ! c)) \<le> unat (user (sample ! c)) + unat (idle (sample ! c))
              \<and> unat (system (d ! c)) \<le> unat (system (sample ! c)) + unat (idle (sample ! c))
              \<and> unat (idle (d ! c)) \<le> unat (idle (sample ! c))"
      using b r by linarith
  qed
  have pre: "c_i ?cst + 1 \<le> max_cpus" "sorted_wrt (<) [0..<nat nprocs]"
      "\<forall>c\<in>set [0..<nat nprocs]. c < length (c_view ?cst)"
    using mc lv by simp_all
  have P: "take (nat (max_cpus - (c_i ?cst + 1))) (filter (\<lambda>c. online (usage node' ! c)) [0..<nat nprocs]) = V"
    unfolding V claimed_cpus_def online_cpus_def by simp
  note a = accumulate_claimed [OF pre, of "usage node'" d, unfolded P, folded acc_def]
  have la: "length (c_view acc) = length (view node0)"
    using a by simp
  have na: "\<And>j. c_view acc ! j = (if j \<in> set V then add_counters (view node0 ! j) (d ! j)
                                    else view node0 ! j)"
    using a by simp
  have ka: "(k \<in> set V \<and> 0 < idle (d ! k) \<and> (\<forall>c\<in>set V. idle (d ! c) \<le> idle (d ! k))
                 \<and> (\<forall>c\<in>set V. c < k \<longrightarrow> idle (d ! c) < idle (d ! k)))
              \<or> (k = 0 \<and> (\<forall>c\<in>set V. idle (d ! c) = 0))"
  proof -
    from a have "(c_max_diff_idle acc = 0 \<and> k = 0 \<and> (\<forall>c\<in>set V. idle (d ! c) \<le> 0))
        \<or> (k \<in> set V \<and> c_max_diff_idle acc = idle (d ! k) \<and> 0 < c_max_diff_idle acc
          \<and> (\<forall>c\<in>set V. idle (d ! c) \<le> c_max_diff_idle acc)
          \<and> (\<forall>c\<in>set V. c < k \<longrightarrow> idle (d ! c) < c_max_diff_idle acc))"
      unfolding k_def by simp
    then show ?thesis by auto
  qed
  have each: "user (view node' ! j)
                  = user (view node0 ! j) + (if j \<in> set V then user (d ! j) else 0)
              \<and> system (view node' ! j)
                  = system (view node0 ! j) + (if j \<in> set V then system (d ! j) else 0)
              \<and> (j \<noteq> k \<or> \<not> exact_cpu_count e < of_int max_cpus \<longrightarrow>
                   idle (view node' ! j)
                     = idle (view node0 ! j) + (if j \<in> set V then idle (d ! j) else 0))
              \<and> idle (view node' ! j)
                  \<le> idle (view node0 ! j) + (if j \<in> set V then idle (d ! j) else 0)"
    if j: "j < length (view node0)" for j
  proof -
    have jl: "j < length (c_view acc)" using j la by simp
    note r = revise_partial_view [OF jl, of "exact_cpu_count e" max_cpus, folded vw k_def]
    have f: "user (c_view acc ! j) = user (view node0 ! j) + (if j \<in> set V then user (d ! j) else 0)"
        "system (c_view acc ! j) = system (view node0 ! j) + (if j \<in> set V then system (d ! j) else 0)"
        "idle (c_view acc ! j) = idle (view node0 ! j) + (if j \<in> set V then idle (d ! j) else 0)"
      using na [of j] by (simp_all add: add_counters_def)
    show ?thesis using r f by auto
  qed
  have len: "length (view node') = length (view node0)"
    unfolding vw using la by (simp add: length_revise_partial)
  show ?thesis
    using q len lus Vs Vb bnd ka each by blast
qed

lemma length_prune: "length (prune_proc_stat_history e hs) = length hs"
  by (induction hs) simp_all

lemma length_put_node: "length (put_node e hist n) = length hist"
  by (simp add: put_node_def Let_def)

lemma bucket_less: "bucket e c < CPUVIEW_HASH_SIZE"
  by (simp add: bucket_def CPUVIEW_HASH_SIZE_def)

lemma find_map_replace:
  assumes "find (\<lambda>n. cg n = c) xs \<noteq> None" "cg x = c"
  shows "find (\<lambda>n. cg n = c) (map (\<lambda>n. if cg n = cg x then x else n) xs) = Some x"
  using assms by (induction xs) auto

lemma get_put_node:
  assumes "bucket e c < length hist" "cg n = c" "get_node e hist c \<noteq> None"
  shows "get_node e (put_node e hist n) c = Some n"
  using assms find_map_replace [of c "chain (hist ! bucket e c)" n]
  by (simp add: get_node_def put_node_def Let_def)

lemma find_cg: "find (\<lambda>n. cg n = c) xs = Some x \<Longrightarrow> cg x = c"
  by (induction xs) (auto split: if_splits)

lemma expand_keeps:
  assumes "expand_proc_stat_node mu mv node m = Some node'"
  shows "cg node' = cg node \<and> locked node' = locked node"
  using assms by (auto simp: expand_proc_stat_node_def split: option.splits prod.splits)

lemma find_or_create_old:
  assumes old: "get_node e hist cg_in = Some old"
      and foc: "find_or_create_proc_stat_node e al hist sample nprocs cg_in = Inr (hist1, Some node0)"
      and hl: "length hist = CPUVIEW_HASH_SIZE"
      and inv: "cpu_count old = int (length (view old))" "length (usage old) = length (view old)"
  shows "cg node0 = cg_in \<and> length hist1 = length hist
     \<and> get_node e hist1 cg_in = Some node0
     \<and> cpu_count node0 = int (length (view node0))
     \<and> length (usage node0) = length (view node0)
     \<and> length (view old) \<le> length (view node0)
     \<and> nat nprocs \<le> length (view node0) \<and> nat nprocs \<le> length (usage node0)
     \<and> (\<forall>j<length (view old).
           user (view node0 ! j) = user (view old ! j)
         \<and> system (view node0 ! j) = system (view old ! j)
         \<and> idle (view node0 ! j) = idle (view old ! j)
         \<and> user (usage node0 ! j) = user (usage old ! j))
     \<and> (\<forall>j. length (view old) \<le> j \<and> j < nat nprocs \<longrightarrow> user (usage node0 ! j) = 0)"
proof -
  let ?hp = "prune_proc_stat_history e hist"
  have cgo: "cg old = cg_in" using old find_cg by (simp add: get_node_def)
  have ne: "chain (hist ! bucket e cg_in) \<noteq> []"
    using old by (auto simp: get_node_def)
  have f: "find_proc_stat_node e hist (bucket e cg_in) cg_in = (?hp, Some old)"
    using old ne by (simp add: find_proc_stat_node_def get_node_def)
  have g: "get_node e ?hp cg_in \<noteq> None"
    using foc f by (auto simp: find_or_create_proc_stat_node_def split: if_splits)
  have le: "lock_and_expand e al ?hp old nprocs = Inr (hist1, Some node0)"
    using foc f g by (simp add: find_or_create_proc_stat_node_def)
  have nl: "\<not> locked old" using le by (auto simp: lock_and_expand_def)
  have bl: "bucket e cg_in < length ?hp"
    using bucket_less [of e cg_in] hl by (simp add: length_prune)
  show ?thesis
  proof (cases "cpu_count old < nprocs")
    case True
    let ?n = "old\<lparr>locked := True\<rparr>"
    have ex: "expand_proc_stat_node (a_new_usage al) (a_new_view al) ?n nprocs = Some node0"
      and h1: "hist1 = put_node e ?hp node0"
      using le nl True by (auto simp: lock_and_expand_def Let_def split: option.splits)
    note k = expand_keeps [OF ex]
    note x = expand_ok [OF ex]
    have cg0: "cg node0 = cg_in" using k cgo by simp
    have lt: "length (view old) < nat nprocs" using True inv by linarith
    have ci: "cpu_count node0 = int (length (view node0))"
      using x lt by simp
    have c1: "\<forall>j<length (view old).
           user (view node0 ! j) = user (view old ! j)
         \<and> system (view node0 ! j) = system (view old ! j)
         \<and> idle (view node0 ! j) = idle (view old ! j)
         \<and> user (usage node0 ! j) = user (usage old ! j)"
    proof (intro allI impI)
      fix j assume j: "j < length (view old)"
      then have "j < nat nprocs" "int j < cpu_count ?n" using lt inv by simp_all
      then show "user (view node0 ! j) = user (view old ! j)
         \<and> system (view node0 ! j) = system (view old ! j)
         \<and> idle (view node0 ! j) = idle (view old ! j)
         \<and> user (usage node0 ! j) = user (usage old ! j)"
        using x by simp
    qed
    have c2: "\<forall>j. length (view old) \<le> j \<and> j < nat nprocs \<longrightarrow> user (usage node0 ! j) = 0"
    proof (intro allI impI)
      fix j assume j: "length (view old) \<le> j \<and> j < nat nprocs"
      then have "j < nat nprocs" "cpu_count ?n \<le> int j" using inv by simp_all
      then show "user (usage node0 ! j) = 0" using x by simp
    qed
    show ?thesis
      using cg0 h1 get_put_node [OF bl cg0 g] x lt c1 c2 hl ci
      by (simp add: length_put_node length_prune)
  next
    case False
    let ?n = "old\<lparr>locked := True\<rparr>"
    have n0: "node0 = ?n" and h1: "hist1 = put_node e ?hp ?n"
      using le nl False by (auto simp: lock_and_expand_def Let_def)
    have cg0: "cg ?n = cg_in" using cgo by simp
    have ge: "nat nprocs \<le> length (view old)" using False inv by linarith
    have vac: "\<forall>j. length (view old) \<le> j \<and> j < nat nprocs \<longrightarrow> user (usage ?n ! j) = 0"
      using ge by auto
    show ?thesis
      unfolding n0 h1
      using cg0 get_put_node [OF bl cg0 g] ge inv hl vac
      by (simp add: length_put_node length_prune)
  qed
qed

lemma no_reset:
  assumes "\<forall>c<nat nprocs. online (sample ! c) \<longrightarrow> \<not> user (sample ! c) < user (usage node ! c)"
  shows "reset_if_lower node sample nprocs = node"
proof (cases "find (\<lambda>curcpu. online (sample ! curcpu)) [0..<nat nprocs]")
  case None
  then show ?thesis by (simp add: reset_if_lower_def)
next
  case (Some c)
  then have "c \<in> set [0..<nat nprocs]" "online (sample ! c)"
    by (auto simp: find_Some_iff)
  then show ?thesis using assms Some by (simp add: reset_if_lower_def)
qed

lemma word_le_add_nowrap:
  "unat (x :: u64) + unat y < 2 ^ 64 \<Longrightarrow> x \<le> x + y"
  by (simp add: no_olen_add_nat)

lemma read_parts:
  assumes rd: "cpuview_proc_stat e al hist cg_in cpuset cg_cpu_usage cg_cpu_usage_size f buf_size
                 = Inr r"
      and ok: "ret r \<noteq> 0"
      and ps: "read_cpu_lines cpuset cg_cpu_usage_size f
                 \<lparr>p_usage = cg_cpu_usage, p_curcpu = - 1, p_cpu_cnt = 0, p_line = None,
                  p_log = []\<rparr> = Inr (ps, rest)"
  shows "\<exists>hist1 node0 gd stat_node tot.
       find_or_create_proc_stat_node e al hist (p_usage ps)
           (working_nprocs e cg_cpu_usage_size) cg_in = Inr (hist1, Some node0)
     \<and> a_diff al = Some gd
     \<and> update_view e node0 (p_usage ps) (block gd (working_nprocs e cg_cpu_usage_size))
           (working_nprocs e cg_cpu_usage_size) (min (max_cpu_count e) (p_cpu_cnt ps))
           (p_cpu_cnt ps) = (stat_node, tot)
     \<and> history r = put_node e hist1 (stat_node\<lparr>locked := False\<rparr>)"
  using rd ok unfolding cpuview_proc_stat_def ps
  by (auto simp: Let_def min_def split: sum.splits prod.splits option.splits if_splits)

lemma update_view_steps:
  assumes "reset_if_lower node sample n = node"
      and "diff_cpu_usage (usage node) sample diff0 n = (diff, ticks)"
      and "fold (surplus_step sample diff mc) [0..<nat n]
             \<lparr>s_usage = usage node, s_i = - 1, s_user_surplus = 0, s_system_surplus = 0\<rparr> = ss"
      and "0 < mc"
      and "redistribute (s_usage ss) mc (ticks div word_of_int cpu_cnt * word_of_int mc)
             [0..<nat n]
             \<lparr>r_diff = diff, r_i = - 1, r_user_surplus = s_user_surplus ss,
              r_system_surplus = s_system_surplus ss\<rparr> = rs"
      and "accumulate (s_usage ss) (r_diff rs) mc [0..<nat n]
             \<lparr>c_view = view node, c_i = - 1,
              c_user_sum = 0, c_system_sum = 0, c_idle_sum = 0,
              c_diff_user = 0, c_diff_system = 0, c_diff_idle = 0,
              c_max_diff_idle = 0, c_max_diff_idle_index = 0\<rparr> = acc"
      and "revise_partial (exact_cpu_count e) mc acc = rv"
  shows "update_view e node sample diff0 n mc cpu_cnt
           = (node\<lparr>usage := s_usage ss, view := c_view rv\<rparr>,
              \<lparr>user_sum = c_user_sum rv, system_sum = c_system_sum rv,
               idle_sum = c_idle_sum rv\<rparr>)"
  unfolding update_view_def using assms by (simp add: Let_def)

lemma bucket_v: "bucket env_frac c = 0"
  by (simp add: bucket_def env_frac_def)

lemma hist_v_cons:
  "empty_history[0 := h] = h # replicate 99 \<lparr>chain = [], lastcheck = 0\<rparr>"
proof -
  have "replicate 100 x = x # replicate 99 x" for x :: cg_proc_stat_head
    using replicate_Suc [of 99 x] by simp
  then show ?thesis by (simp add: empty_history_def)
qed

lemma hist_v_length: "length hist_v0 = CPUVIEW_HASH_SIZE"
  by (simp add: hist_v0_def empty_history_0 CPUVIEW_HASH_SIZE_def)

lemma prune_v: "prune_proc_stat_history env_frac hist_v0 = hist_v0"
  by (simp add: hist_v0_def hist_v_cons PROC_STAT_PRUNE_INTERVAL_def env_frac_def)

lemma get_node_v: "get_node env_frac hist_v0 ''/lxc/a'' = Some node_v0"
  by (simp add: get_node_def bucket_v hist_v0_def hist_v_cons node_v0_def)

lemma expand_v:
  "expand_proc_stat_node (a_new_usage allocs_ok) (a_new_view allocs_ok)
     (node_v0\<lparr>locked := True\<rparr>) 2 = Some node_v_exp"
  by (simp add: expand_proc_stat_node_def allocs_ok_def fresh_def node_v0_def node_v_exp_def
      block_def expand_step_def copy_counters_def zero_counters_def cnt_def eval_nat_numeral)

lemma find_or_create_v:
  "find_or_create_proc_stat_node env_frac allocs_ok hist_v0 (p_usage parse_v_end) 2 ''/lxc/a''
     = Inr (hist_v1, Some node_v_exp)"
proof -
  have f: "find_proc_stat_node env_frac hist_v0 0 ''/lxc/a'' = (hist_v0, Some node_v0)"
    using get_node_v by (simp add: find_proc_stat_node_def prune_v get_node_def bucket_v)
       (simp add: hist_v0_def hist_v_cons)
  have c: "cpu_count (node_v0\<lparr>locked := True\<rparr>) < 2" "\<not> locked node_v0"
    by (simp_all add: node_v0_def)
  have p: "put_node env_frac hist_v0 node_v_exp = hist_v1"
    by (simp add: put_node_def bucket_v hist_v0_def hist_v1_def hist_v_cons node_v0_def
        node_v_exp_def)
  show ?thesis
    using c by (simp add: find_or_create_proc_stat_node_def bucket_v f get_node_v
        lock_and_expand_def expand_v p Let_def)
qed

lemma parse_v_eq:
  "\<lparr>p_usage = p_usage parse_v, p_curcpu = - 1, p_cpu_cnt = 0, p_line = None, p_log = []\<rparr>
     = parse_v"
  by (simp add: parse_v_def)

lemma read_lines_v:
  "read_cpu_lines cpuset_01 2 [line_v0, line_v1, line_intr] parse_v = Inr (parse_v_end, [])"
  by code_simp

lemma working_nprocs_v: "working_nprocs env_frac 2 = 2"
  by (simp add: working_nprocs_def env_frac_def)

lemma max_cpu_count_v: "max_cpu_count env_frac = 2"
  by (simp add: max_cpu_count_def env_frac_def to_int32_def)

lemma exact_cpu_count_v: "exact_cpu_count env_frac = 3 / 2"
  by code_simp

lemma redistributed_diff_steps:
  assumes "reset_if_lower node sample n = node"
      and "diff_cpu_usage (usage node) sample diff0 n = (diff, ticks)"
      and "fold (surplus_step sample diff mc) [0..<nat n]
             \<lparr>s_usage = usage node, s_i = - 1, s_user_surplus = 0, s_system_surplus = 0\<rparr> = ss"
      and "redistribute (s_usage ss) mc (ticks div word_of_int cpu_cnt * word_of_int mc)
             [0..<nat n]
             \<lparr>r_diff = diff, r_i = - 1, r_user_surplus = s_user_surplus ss,
              r_system_surplus = s_system_surplus ss\<rparr> = rs"
  shows "redistributed_diff node sample diff0 n mc cpu_cnt = r_diff rs"
  unfolding redistributed_diff_def using assms by (simp add: Let_def)

lemma step_v_reset: "reset_if_lower node_v_exp (p_usage parse_v_end) 2 = node_v_exp"
  by code_simp

lemma step_v_diff:
  "diff_cpu_usage (usage node_v_exp) (p_usage parse_v_end) (block (\<lambda>i. cnt 7 7 7 False) 2) 2
     = ([cnt 10 0 90 False, cnt 20 0 80 False], 200)"
  by code_simp

lemma step_v_surplus:
  "fold (surplus_step (p_usage parse_v_end) [cnt 10 0 90 False, cnt 20 0 80 False] 2) [0..<nat 2]
     \<lparr>s_usage = usage node_v_exp, s_i = - 1, s_user_surplus = 0, s_system_surplus = 0\<rparr>
     = \<lparr>s_usage = [cnt 10 0 90 True, cnt 20 0 80 True], s_i = 1,
        s_user_surplus = 0, s_system_surplus = 0\<rparr>"
  by code_simp

lemma step_v_redist:
  "redistribute
     (s_usage \<lparr>s_usage = [cnt 10 0 90 True, cnt 20 0 80 True], s_i = 1,
                s_user_surplus = 0, s_system_surplus = 0\<rparr>)
     2 (200 div word_of_int 2 * word_of_int 2) [0..<nat 2]
     \<lparr>r_diff = [cnt 10 0 90 False, cnt 20 0 80 False], r_i = - 1,
      r_user_surplus = s_user_surplus
        \<lparr>s_usage = [cnt 10 0 90 True, cnt 20 0 80 True], s_i = 1,
         s_user_surplus = 0, s_system_surplus = 0\<rparr>,
      r_system_surplus = s_system_surplus
        \<lparr>s_usage = [cnt 10 0 90 True, cnt 20 0 80 True], s_i = 1,
         s_user_surplus = 0, s_system_surplus = 0\<rparr>\<rparr>
     = \<lparr>r_diff = [cnt 10 0 90 False, cnt 20 0 80 False], r_i = 1,
        r_user_surplus = 0, r_system_surplus = 0\<rparr>"
  by code_simp

lemma redistributed_diff_v:
  "redistributed_diff node_v_exp (p_usage parse_v_end) (block (\<lambda>i. cnt 7 7 7 False) 2) 2 2 2
     = [cnt 10 0 90 False, cnt 20 0 80 False]"
  unfolding redistributed_diff_steps [OF step_v_reset step_v_diff step_v_surplus step_v_redist]
  by simp

lemma update_view_v:
  "update_view env_frac node_v_exp (p_usage parse_v_end) (block (\<lambda>i. cnt 7 7 7 False) 2) 2 2 2
     = (node_v1\<lparr>locked := True\<rparr>, tot_v)"
proof -
  let ?ss = "\<lparr>s_usage = [cnt 10 0 90 True, cnt 20 0 80 True], s_i = 1,
              s_user_surplus = 0, s_system_surplus = 0\<rparr>"
  let ?rs = "\<lparr>r_diff = [cnt 10 0 90 False, cnt 20 0 80 False], r_i = 1,
              r_user_surplus = 0, r_system_surplus = 0\<rparr>"
  let ?acc = "\<lparr>c_view = [cnt 15 0 140 False, cnt 20 0 80 False], c_i = 1,
               c_user_sum = 35, c_system_sum = 0, c_idle_sum = 220,
               c_diff_user = 30, c_diff_system = 0, c_diff_idle = 170,
               c_max_diff_idle = 90, c_max_diff_idle_index = 0\<rparr>"
  let ?rev = "\<lparr>c_view = [cnt 15 0 90 False, cnt 20 0 80 False], c_i = 1,
               c_user_sum = 35, c_system_sum = 0, c_idle_sum = 170,
               c_diff_user = 30, c_diff_system = 0, c_diff_idle = 170,
               c_max_diff_idle = 90, c_max_diff_idle_index = 0\<rparr>"
  have e: "accumulate (s_usage ?ss) (r_diff ?rs) 2 [0..<nat 2]
             \<lparr>c_view = view node_v_exp, c_i = - 1,
              c_user_sum = 0, c_system_sum = 0, c_idle_sum = 0,
              c_diff_user = 0, c_diff_system = 0, c_diff_idle = 0,
              c_max_diff_idle = 0, c_max_diff_idle_index = 0\<rparr> = ?acc"
    by code_simp
  have pd: "partial_delta 200 (3 / 2) 2 = 50"
    by code_simp
  have g: "revise_partial (exact_cpu_count env_frac) 2 ?acc = ?rev"
    by (simp add: revise_partial_def exact_cpu_count_v pd sub_or_zero_def cnt_def Let_def)
  have q: "(0::int) < 2" by simp
  show ?thesis
    unfolding update_view_steps [OF step_v_reset step_v_diff step_v_surplus q step_v_redist e g]
    by (simp add: node_v1_def node_v_exp_def tot_v_def parse_v_end_def cnt_def)
qed

lemma render_v:
  "render (node_v1\<lparr>locked := True\<rparr>) tot_v 2 2 line_intr [] 4096
     = Some \<lparr>o_buf = ''cpu  35 0 0 170 0 0 0 0 0 0'' @ [CHR 0x0A]
                 @ ''cpu0 15 0 0 90 0 0 0 0 0 0'' @ [CHR 0x0A]
                 @ ''cpu1 20 0 0 80 0 0 0 0 0 0'' @ [CHR 0x0A] @ line_intr,
             o_size = 3999, o_total = 97\<rparr>"
  by code_simp

lemma read_v_ok:
  "cpuview_proc_stat env_frac allocs_ok hist_v0 ''/lxc/a'' cpuset_01
     (p_usage parse_v) 2 [line_v0, line_v1, line_intr] 4096 = Inr read_v"
proof -
  have p: "p_cpu_cnt parse_v_end = 2" "p_line parse_v_end = Some line_intr"
      "p_log parse_v_end = []"
    by (simp_all add: parse_v_end_def)
  have n: "node_v1\<lparr>locked := False\<rparr> = node_v1"
    by (simp add: node_v1_def)
  have h: "put_node env_frac hist_v1 node_v1
             = empty_history[0 := \<lparr>chain = [node_v1], lastcheck = 0\<rparr>]"
    by (simp add: put_node_def bucket_v hist_v1_def empty_history_0 node_v1_def node_v_exp_def)
  show ?thesis
    by (simp add: cpuview_proc_stat_def parse_v_eq read_lines_v working_nprocs_v
        find_or_create_v a_diff_a max_cpu_count_v p update_view_v render_v
        n h read_v_def del: read_cpu_lines.simps)
qed

text \<open>
  C1 (amended). Take a read of a cgroup whose node is in the history, with as many
  entries in its arrays as its \<open>cpu_count\<close> says, and suppose that the read succeeds,
  that a quota is in force (\<open>max_cpus > 0\<close>), that on no online CPU the user time of the
  cgroup is below the one stored in the node (so that the node is not reset) and that
  the view of a CPU plus the counters of its sample stay below \<open>2 ^ 64\<close>. Then the node
  is in the history after the read, unlocked, with arrays that are as long as its
  \<open>cpu_count\<close> and not shorter than before. With \<open>V\<close> the visible CPUs, the first
  \<open>max_cpus\<close> online CPUs of the sample, and \<open>d\<close> the deltas as the redistribution
  leaves them, the user and system time of the view of a CPU in \<open>V\<close> have grown by its
  user and system delta, and those of every other CPU are as before: none has
  decreased. The same holds for the idle time of every CPU but one CPU \<open>k\<close> when the
  quota is not a whole number of CPUs (\<open>exact_cpus < max_cpus\<close>): \<open>k\<close> is the first
  visible CPU with the largest idle delta if a visible CPU has an idle delta above zero,
  and CPU 0, visible or not, otherwise. The idle time of the view of \<open>k\<close> may decrease.
\<close>

theorem view_non_decreasing:
  assumes rd: "cpuview_proc_stat e al hist cg_in cpuset cg_cpu_usage cg_cpu_usage_size f buf_size
                 = Inr r"
      and ok: "ret r \<noteq> 0"
      and hl: "length hist = CPUVIEW_HASH_SIZE"
      and old: "get_node e hist cg_in = Some old"
      and inv: "cpu_count old = int (length (view old))" "length (usage old) = length (view old)"
      and ps: "read_cpu_lines cpuset cg_cpu_usage_size f
                 \<lparr>p_usage = cg_cpu_usage, p_curcpu = - 1, p_cpu_cnt = 0, p_line = None,
                  p_log = []\<rparr> = Inr (ps, rest)"
      and np: "nprocs = working_nprocs e cg_cpu_usage_size"
      and mx: "max_cpus = min (max_cpu_count e) (p_cpu_cnt ps)"
      and mc: "0 < max_cpus"
      and nd: "\<forall>c<nat nprocs. c < length (usage old) \<and> online (p_usage ps ! c) \<longrightarrow>
                 user (usage old ! c) \<le> user (p_usage ps ! c)"
      and nw: "\<forall>c<nat nprocs. c < length (view old) \<and> online (p_usage ps ! c) \<longrightarrow>
                 unat (user (view old ! c))
                   + (unat (user (p_usage ps ! c)) + unat (idle (p_usage ps ! c))) < 2 ^ 64
               \<and> unat (system (view old ! c))
                   + (unat (system (p_usage ps ! c)) + unat (idle (p_usage ps ! c))) < 2 ^ 64
               \<and> unat (idle (view old ! c)) + unat (idle (p_usage ps ! c)) < 2 ^ 64"
  shows "\<exists>hist1 node0 gd new k.
       find_or_create_proc_stat_node e al hist (p_usage ps) nprocs cg_in
         = Inr (hist1, Some node0)
     \<and> a_diff al = Some gd
     \<and> get_node e (history r) cg_in = Some new
     \<and> \<not> locked new
     \<and> cpu_count new = int (length (view new))
     \<and> length (usage new) = length (view new)
     \<and> length (view old) \<le> length (view new)
     \<and> (let d = redistributed_diff node0 (p_usage ps) (block gd nprocs) nprocs max_cpus
                  (p_cpu_cnt ps);
             V = claimed_cpus (p_usage ps) nprocs max_cpus
         in ((k \<in> set V \<and> 0 < idle (d ! k) \<and> (\<forall>c\<in>set V. idle (d ! c) \<le> idle (d ! k))
                \<and> (\<forall>c\<in>set V. c < k \<longrightarrow> idle (d ! c) < idle (d ! k)))
             \<or> (k = 0 \<and> (\<forall>c\<in>set V. idle (d ! c) = 0)))
          \<and> (\<forall>j<length (view old).
                user (view new ! j)
                  = user (view old ! j) + (if j \<in> set V then user (d ! j) else 0)
              \<and> system (view new ! j)
                  = system (view old ! j) + (if j \<in> set V then system (d ! j) else 0)
              \<and> user (view old ! j) \<le> user (view new ! j)
              \<and> system (view old ! j) \<le> system (view new ! j)
              \<and> (j \<noteq> k \<or> \<not> exact_cpu_count e < of_int max_cpus \<longrightarrow>
                   idle (view new ! j)
                     = idle (view old ! j) + (if j \<in> set V then idle (d ! j) else 0)
                   \<and> idle (view old ! j) \<le> idle (view new ! j))))"
proof -
  let ?sample = "p_usage ps"
  from read_parts [OF rd ok ps] obtain hist1 node0 gd stat_node tot where
    foc: "find_or_create_proc_stat_node e al hist ?sample nprocs cg_in = Inr (hist1, Some node0)"
    and ad: "a_diff al = Some gd"
    and uv: "update_view e node0 ?sample (block gd nprocs) nprocs max_cpus (p_cpu_cnt ps)
               = (stat_node, tot)"
    and hr: "history r = put_node e hist1 (stat_node\<lparr>locked := False\<rparr>)"
    unfolding np mx by blast
  define d where "d = redistributed_diff node0 ?sample (block gd nprocs) nprocs max_cpus
                        (p_cpu_cnt ps)"
  define V where "V = claimed_cpus ?sample nprocs max_cpus"
  define new where "new = stat_node\<lparr>locked := False\<rparr>"
  note fo = find_or_create_old [OF old foc hl inv]
  have cg0: "cg node0 = cg_in" and l1: "length hist1 = length hist"
    and g1: "get_node e hist1 cg_in = Some node0"
    and lo: "length (view old) \<le> length (view node0)"
    and lv: "nat nprocs \<le> length (view node0)" and lu: "nat nprocs \<le> length (usage node0)"
    and ci0: "cpu_count node0 = int (length (view node0))"
    and lu0: "length (usage node0) = length (view node0)"
    using fo by simp_all
  have same: "\<And>j. j < length (view old) \<Longrightarrow>
           user (view node0 ! j) = user (view old ! j)
         \<and> system (view node0 ! j) = system (view old ! j)
         \<and> idle (view node0 ! j) = idle (view old ! j)
         \<and> user (usage node0 ! j) = user (usage old ! j)"
    using fo by simp
  have zero: "\<And>j. length (view old) \<le> j \<Longrightarrow> j < nat nprocs \<Longrightarrow> user (usage node0 ! j) = 0"
    using fo by simp
  have nr: "reset_if_lower node0 ?sample nprocs = node0"
  proof (rule no_reset, intro allI impI)
    fix c assume c: "c < nat nprocs" and o: "online (?sample ! c)"
    show "\<not> user (?sample ! c) < user (usage node0 ! c)"
    proof (cases "c < length (view old)")
      case True
      then have "user (usage old ! c) \<le> user (?sample ! c)"
        using nd c o inv by simp
      then show ?thesis using same [OF True] by (simp add: not_less)
    next
      case False
      then have "user (usage node0 ! c) = 0" using zero c by simp
      then show ?thesis by simp
    qed
  qed
  have ld: "nat nprocs \<le> length (block gd nprocs)"
    by (simp add: block_def)
  note ch = update_view_char [OF nr mc uv lv lu ld d_def refl]
  have Vc: "claimed_cpus (usage stat_node) nprocs max_cpus = V"
    using ch unfolding V_def by simp
  note ch' = ch [unfolded Vc]
  have cgs: "cg stat_node = cg_in" using ch' cg0 by simp
  have lens: "length (view stat_node) = length (view node0)" using ch' by simp
  have Vb: "\<forall>c\<in>set V. c < nat nprocs \<and> online (?sample ! c)" using ch' by blast
  have bnd: "\<forall>c\<in>set V. unat (user (d ! c)) \<le> unat (user (?sample ! c)) + unat (idle (?sample ! c))
              \<and> unat (system (d ! c)) \<le> unat (system (?sample ! c)) + unat (idle (?sample ! c))
              \<and> unat (idle (d ! c)) \<le> unat (idle (?sample ! c))"
    using ch' by blast
  from ch' obtain k where
    kc: "(k \<in> set V \<and> 0 < idle (d ! k) \<and> (\<forall>c\<in>set V. idle (d ! c) \<le> idle (d ! k))
                 \<and> (\<forall>c\<in>set V. c < k \<longrightarrow> idle (d ! c) < idle (d ! k)))
              \<or> (k = 0 \<and> (\<forall>c\<in>set V. idle (d ! c) = 0))"
    and ea: "\<forall>j<length (view node0).
                user (view stat_node ! j)
                  = user (view node0 ! j) + (if j \<in> set V then user (d ! j) else 0)
              \<and> system (view stat_node ! j)
                  = system (view node0 ! j) + (if j \<in> set V then system (d ! j) else 0)
              \<and> (j \<noteq> k \<or> \<not> exact_cpu_count e < of_int max_cpus \<longrightarrow>
                   idle (view stat_node ! j)
                     = idle (view node0 ! j) + (if j \<in> set V then idle (d ! j) else 0))"
    by blast
  have bl: "bucket e cg_in < length hist1"
    using bucket_less [of e cg_in] hl l1 by simp
  have gn: "get_node e (history r) cg_in = Some new"
    unfolding hr new_def using get_put_node [OF bl _ , of "stat_node\<lparr>locked := False\<rparr>"] cgs g1
    by simp
  have vn: "view new = view stat_node" by (simp add: new_def)
  have nin: "\<not> locked new" "cpu_count new = int (length (view new))"
      "length (usage new) = length (view new)"
    using ch' ci0 lu0 by (simp_all add: new_def)
  have ln: "length (view old) \<le> length (view new)"
    using lo lens vn by simp
  have each: "user (view new ! j)
                  = user (view old ! j) + (if j \<in> set V then user (d ! j) else 0)
              \<and> system (view new ! j)
                  = system (view old ! j) + (if j \<in> set V then system (d ! j) else 0)
              \<and> user (view old ! j) \<le> user (view new ! j)
              \<and> system (view old ! j) \<le> system (view new ! j)
              \<and> (j \<noteq> k \<or> \<not> exact_cpu_count e < of_int max_cpus \<longrightarrow>
                   idle (view new ! j)
                     = idle (view old ! j) + (if j \<in> set V then idle (d ! j) else 0)
                   \<and> idle (view old ! j) \<le> idle (view new ! j))"
    if j: "j < length (view old)" for j
  proof -
    have j0: "j < length (view node0)" using j lo by simp
    note s = same [OF j]
    have eu: "user (view new ! j) = user (view old ! j) + (if j \<in> set V then user (d ! j) else 0)"
      and es: "system (view new ! j) = system (view old ! j) + (if j \<in> set V then system (d ! j) else 0)"
      and ei: "j \<noteq> k \<or> \<not> exact_cpu_count e < of_int max_cpus \<Longrightarrow>
                   idle (view new ! j)
                     = idle (view old ! j) + (if j \<in> set V then idle (d ! j) else 0)"
      using ea j0 s vn by simp_all
    have mono: "user (view old ! j) \<le> user (view old ! j) + (if j \<in> set V then user (d ! j) else 0)
        \<and> system (view old ! j) \<le> system (view old ! j) + (if j \<in> set V then system (d ! j) else 0)
        \<and> idle (view old ! j) \<le> idle (view old ! j) + (if j \<in> set V then idle (d ! j) else 0)"
    proof (cases "j \<in> set V")
      case False
      then show ?thesis by simp
    next
      case True
      then have jn: "j < nat nprocs" and jo: "online (?sample ! j)" using Vb by simp_all
      have w: "unat (user (view old ! j))
                   + (unat (user (?sample ! j)) + unat (idle (?sample ! j))) < 2 ^ 64"
              "unat (system (view old ! j))
                   + (unat (system (?sample ! j)) + unat (idle (?sample ! j))) < 2 ^ 64"
              "unat (idle (view old ! j)) + unat (idle (?sample ! j)) < 2 ^ 64"
        using nw jn j jo by simp_all
      have b: "unat (user (d ! j)) \<le> unat (user (?sample ! j)) + unat (idle (?sample ! j))"
          "unat (system (d ! j)) \<le> unat (system (?sample ! j)) + unat (idle (?sample ! j))"
          "unat (idle (d ! j)) \<le> unat (idle (?sample ! j))"
        using bnd True by simp_all
      have n: "unat (user (view old ! j)) + unat (user (d ! j)) < 2 ^ 64"
           "unat (system (view old ! j)) + unat (system (d ! j)) < 2 ^ 64"
           "unat (idle (view old ! j)) + unat (idle (d ! j)) < 2 ^ 64"
        using w b by linarith+
      have "user (view old ! j) \<le> user (view old ! j) + user (d ! j)"
           "system (view old ! j) \<le> system (view old ! j) + system (d ! j)"
           "idle (view old ! j) \<le> idle (view old ! j) + idle (d ! j)"
        using n(1) word_le_add_nowrap apply blast
        using n(2) word_le_add_nowrap apply blast
        using n(3) word_le_add_nowrap apply blast
        done
      then show ?thesis using True by simp
    qed
    show ?thesis using eu es ei mono by simp
  qed
  have body: "(let d = redistributed_diff node0 (p_usage ps) (block gd nprocs) nprocs max_cpus
                  (p_cpu_cnt ps);
             V = claimed_cpus (p_usage ps) nprocs max_cpus
         in ((k \<in> set V \<and> 0 < idle (d ! k) \<and> (\<forall>c\<in>set V. idle (d ! c) \<le> idle (d ! k))
                \<and> (\<forall>c\<in>set V. c < k \<longrightarrow> idle (d ! c) < idle (d ! k)))
             \<or> (k = 0 \<and> (\<forall>c\<in>set V. idle (d ! c) = 0)))
          \<and> (\<forall>j<length (view old).
                user (view new ! j)
                  = user (view old ! j) + (if j \<in> set V then user (d ! j) else 0)
              \<and> system (view new ! j)
                  = system (view old ! j) + (if j \<in> set V then system (d ! j) else 0)
              \<and> user (view old ! j) \<le> user (view new ! j)
              \<and> system (view old ! j) \<le> system (view new ! j)
              \<and> (j \<noteq> k \<or> \<not> exact_cpu_count e < of_int max_cpus \<longrightarrow>
                   idle (view new ! j)
                     = idle (view old ! j) + (if j \<in> set V then idle (d ! j) else 0)
                   \<and> idle (view old ! j) \<le> idle (view new ! j))))"
    unfolding Let_def d_def [symmetric] V_def [symmetric]
    using kc each by blast
  show ?thesis
    using foc ad gn nin ln body by blast
qed

text \<open>
  The theorem at a read of two CPUs under a quota of one CPU and a half. The node has
  one CPU before the read and is expanded to two. Both CPUs are visible; CPU 0 has the
  largest idle delta, 90, and the revision takes 50 from its idle time: the view of
  CPU 0 goes from user 5, idle 50 to user 15, idle 90.
\<close>

theorem view_non_decreasing_witness:
  "cpuview_proc_stat env_frac allocs_ok hist_v0 ''/lxc/a'' cpuset_01
     (p_usage parse_v) 2 [line_v0, line_v1, line_intr] 4096 = Inr read_v
   \<and> ret read_v \<noteq> 0
   \<and> length hist_v0 = CPUVIEW_HASH_SIZE
   \<and> get_node env_frac hist_v0 ''/lxc/a'' = Some node_v0
   \<and> cpu_count node_v0 = int (length (view node_v0))
   \<and> length (usage node_v0) = length (view node_v0)
   \<and> read_cpu_lines cpuset_01 2 [line_v0, line_v1, line_intr]
        \<lparr>p_usage = p_usage parse_v, p_curcpu = - 1, p_cpu_cnt = 0, p_line = None, p_log = []\<rparr>
        = Inr (parse_v_end, [])
   \<and> (0::int) < min (max_cpu_count env_frac) (p_cpu_cnt parse_v_end)
   \<and> exact_cpu_count env_frac < of_int (min (max_cpu_count env_frac) (p_cpu_cnt parse_v_end))
   \<and> claimed_cpus (p_usage parse_v_end) (working_nprocs env_frac 2)
        (min (max_cpu_count env_frac) (p_cpu_cnt parse_v_end)) = [0, 1]
   \<and> get_node env_frac (history read_v) ''/lxc/a'' = Some node_v1
   \<and> length (view node_v0) = 1
   \<and> length (view node_v1) = 2
   \<and> cpu_count node_v1 = int (length (view node_v1))
   \<and> user (view node_v0 ! 0) \<le> user (view node_v1 ! 0)
   \<and> system (view node_v0 ! 0) \<le> system (view node_v1 ! 0)
   \<and> user (view node_v1 ! 0) = user (view node_v0 ! 0) + 10"
proof -
  let ?np = "working_nprocs env_frac 2"
  let ?mc = "min (max_cpu_count env_frac) (p_cpu_cnt parse_v_end)"
  have rd: "cpuview_proc_stat env_frac allocs_ok hist_v0 ''/lxc/a'' cpuset_01
     (p_usage parse_v) 2 [line_v0, line_v1, line_intr] 4096 = Inr read_v"
    by (rule read_v_ok)
  have ok: "ret read_v \<noteq> 0"
    by (simp add: read_v_def)
  have inv: "cpu_count node_v0 = int (length (view node_v0))"
      "length (usage node_v0) = length (view node_v0)"
    by (simp_all add: node_v0_def)
  have ps: "read_cpu_lines cpuset_01 2 [line_v0, line_v1, line_intr]
        \<lparr>p_usage = p_usage parse_v, p_curcpu = - 1, p_cpu_cnt = 0, p_line = None, p_log = []\<rparr>
        = Inr (parse_v_end, [])"
    unfolding parse_v_eq by (rule read_lines_v)
  have cc: "p_cpu_cnt parse_v_end = 2"
    by (simp add: parse_v_end_def)
  have mcv: "?mc = 2"
    by (simp add: max_cpu_count_v cc)
  have mcw: "min (max_cpu_count env_frac) 2 = 2"
    by (simp add: max_cpu_count_v)
  have mc: "0 < ?mc"
    unfolding mcv by simp
  have ex: "exact_cpu_count env_frac < of_int ?mc"
    unfolding mcv exact_cpu_count_v by simp
  have vis: "claimed_cpus (p_usage parse_v_end) ?np ?mc = [0, 1]"
    unfolding mcv working_nprocs_v by code_simp
  have nd: "\<forall>c<nat ?np. c < length (usage node_v0) \<and> online (p_usage parse_v_end ! c) \<longrightarrow>
                 user (usage node_v0 ! c) \<le> user (p_usage parse_v_end ! c)"
    by (simp add: node_v0_def parse_v_end_def cnt_def)
  have nw: "\<forall>c<nat ?np. c < length (view node_v0) \<and> online (p_usage parse_v_end ! c) \<longrightarrow>
                 unat (user (view node_v0 ! c))
                   + (unat (user (p_usage parse_v_end ! c)) + unat (idle (p_usage parse_v_end ! c)))
                   < 2 ^ 64
               \<and> unat (system (view node_v0 ! c))
                   + (unat (system (p_usage parse_v_end ! c))
                      + unat (idle (p_usage parse_v_end ! c))) < 2 ^ 64
               \<and> unat (idle (view node_v0 ! c)) + unat (idle (p_usage parse_v_end ! c)) < 2 ^ 64"
    by (simp add: node_v0_def parse_v_end_def cnt_def)
  have gn: "get_node env_frac (history read_v) ''/lxc/a'' = Some node_v1"
    by (simp add: get_node_def bucket_v read_v_def empty_history_0 node_v1_def)
  have l0: "length (view node_v0) = 1"
    by (simp add: node_v0_def)
  have z: "0 < length (view node_v0)" "(0::nat) \<in> set [0, 1]"
    by (simp_all add: node_v0_def)
  have l1: "length (view node_v1) = 2"
    by (simp add: node_v1_def)
  from view_non_decreasing [OF rd ok hist_v_length get_node_v inv ps refl refl mc nd nw]
  obtain hist1 node0 gd new k where
    foc: "find_or_create_proc_stat_node env_frac allocs_ok hist_v0 (p_usage parse_v_end) ?np
            ''/lxc/a'' = Inr (hist1, Some node0)"
    and ad: "a_diff allocs_ok = Some gd"
    and g: "get_node env_frac (history read_v) ''/lxc/a'' = Some new"
    and ci: "cpu_count new = int (length (view new))"
    and body: "\<forall>j<length (view node_v0).
                user (view new ! j)
                  = user (view node_v0 ! j)
                    + (if j \<in> set (claimed_cpus (p_usage parse_v_end) ?np ?mc)
                       then user (redistributed_diff node0 (p_usage parse_v_end) (block gd ?np)
                                    ?np ?mc (p_cpu_cnt parse_v_end) ! j) else 0)
              \<and> user (view node_v0 ! j) \<le> user (view new ! j)
              \<and> system (view node_v0 ! j) \<le> system (view new ! j)"
    unfolding Let_def by (elim exE conjE) blast
  have n: "new = node_v1" using g gn by simp
  have n0: "node0 = node_v_exp" "gd = (\<lambda>i. cnt 7 7 7 False)"
    using foc ad by (simp_all add: working_nprocs_v find_or_create_v a_diff_a)
  have ci1: "cpu_count node_v1 = int (length (view node_v1))"
    using ci unfolding n .
  have b0: "user (view node_v1 ! 0)
              = user (view node_v0 ! 0)
                + (if (0::nat) \<in> set [0, 1]
                   then user (redistributed_diff node_v_exp (p_usage parse_v_end)
                                (block (\<lambda>i. cnt 7 7 7 False) 2) 2 2 2 ! 0) else 0)"
     and m0: "user (view node_v0 ! 0) \<le> user (view node_v1 ! 0)"
     and m1: "system (view node_v0 ! 0) \<le> system (view node_v1 ! 0)"
    using body [rule_format, OF z(1)] unfolding n n0 vis [unfolded working_nprocs_v cc mcw] working_nprocs_v cc mcw by blast+
  have u: "user (view node_v1 ! 0) = user (view node_v0 ! 0) + 10"
    using b0 unfolding redistributed_diff_v by (simp add: cnt_def)
  show ?thesis
    using rd ok hist_v_length get_node_v inv ps mc ex vis gn l0 l1 ci1 m0 m1 u by blast
qed

text \<open>
  C1 as stated fails. With a quota of half a CPU on a host with one CPU, a first read
  of \<open>cpu0 0 0 0 100\<close> leaves an idle time of 50 in the view, and a second read of
  \<open>cpu0 60 0 0 140\<close>, with 60 ticks of user time used by the cgroup, leaves 40: the
  counters of the host and of the cgroup have not decreased, nothing was reset, and the
  idle time of the view went down. And when the quota of a cgroup with a view user time
  of 63 (its own 10 and the surplus of another CPU) can no longer be read, the next read
  sets the view to the usage, user time 10.
\<close>

theorem view_decreases_counterexample:
  "max_cpu_count env_half = 1
   \<and> read_cpu_lines cpuset_0 1 [line_h1, line_intr] parse_h1 = Inr (parse_h1_end, [])
   \<and> reset_if_lower node_h0 sample_h1 1 = node_h0
   \<and> update_view env_half node_h0 sample_h1 [cnt 7 7 7 False] 1 1 1
        = (node_h1, \<lparr>user_sum = 0, system_sum = 0, idle_sum = 50\<rparr>)
   \<and> read_cpu_lines cpuset_0 1 [line_h2, line_intr] parse_h2 = Inr (parse_h2_end, [])
   \<and> user (sample_h1 ! 0) \<le> user (sample_h2 ! 0)
   \<and> system (sample_h1 ! 0) \<le> system (sample_h2 ! 0)
   \<and> idle (sample_h1 ! 0) \<le> idle (sample_h2 ! 0)
   \<and> reset_if_lower node_h1 sample_h2 1 = node_h1
   \<and> update_view env_half node_h1 sample_h2 [cnt 7 7 7 False] 1 1 1
        = (node_h2, \<lparr>user_sum = 60, system_sum = 0, idle_sum = 40\<rparr>)
   \<and> idle (view node_h1 ! 0) = 50
   \<and> idle (view node_h2 ! 0) = 40
   \<and> idle (view node_h2 ! 0) < idle (view node_h1 ! 0)
   \<and> max_cpu_count env_two_no_quota = 0
   \<and> reset_if_lower node_w1 sample_w 2 = node_w1
   \<and> update_view env_two_no_quota node_w1 sample_w junk2 2 0 2
        = (node_w2, \<lparr>user_sum = 60, system_sum = 0, idle_sum = 140\<rparr>)
   \<and> user (view node_w1 ! 0) = 63
   \<and> user (view node_w2 ! 0) = 10
   \<and> user (view node_w2 ! 0) < user (view node_w1 ! 0)"
proof -
  have m1: "max_cpu_count env_half = 1"
    by (simp add: max_cpu_count_def env_half_def to_int32_def)
  have p1: "read_cpu_lines cpuset_0 1 [line_h1, line_intr] parse_h1 = Inr (parse_h1_end, [])"
    by code_simp
  have ex: "exact_cpu_count env_half = 1 / 2"
    by code_simp
  have pd: "partial_delta 100 (1 / 2) 1 = 50"
    by code_simp
  have q: "(0::int) < 1"
    by simp
  have r1: "reset_if_lower node_h0 sample_h1 1 = node_h0"
    by code_simp
  have u1: "update_view env_half node_h0 sample_h1 [cnt 7 7 7 False] 1 1 1
        = (node_h1, \<lparr>user_sum = 0, system_sum = 0, idle_sum = 50\<rparr>)"
  proof -
    let ?ss = "\<lparr>s_usage = [cnt 0 0 100 True], s_i = 0, s_user_surplus = 0, s_system_surplus = 0\<rparr>"
    let ?rs = "\<lparr>r_diff = [cnt 0 0 100 False], r_i = 0, r_user_surplus = 0, r_system_surplus = 0\<rparr>"
    let ?acc = "\<lparr>c_view = [cnt 0 0 100 False], c_i = 0,
                 c_user_sum = 0, c_system_sum = 0, c_idle_sum = 100,
                 c_diff_user = 0, c_diff_system = 0, c_diff_idle = 100,
                 c_max_diff_idle = 100, c_max_diff_idle_index = 0\<rparr>"
    let ?rev = "\<lparr>c_view = [cnt 0 0 50 False], c_i = 0,
                 c_user_sum = 0, c_system_sum = 0, c_idle_sum = 50,
                 c_diff_user = 0, c_diff_system = 0, c_diff_idle = 100,
                 c_max_diff_idle = 100, c_max_diff_idle_index = 0\<rparr>"
    have b: "diff_cpu_usage (usage node_h0) sample_h1 [cnt 7 7 7 False] 1 = ([cnt 0 0 100 False], 100)"
      by code_simp
    have c: "fold (surplus_step sample_h1 [cnt 0 0 100 False] 1) [0..<nat 1]
               \<lparr>s_usage = usage node_h0, s_i = - 1, s_user_surplus = 0,
                s_system_surplus = 0\<rparr> = ?ss"
      by code_simp
    have d: "redistribute (s_usage ?ss) 1 (100 div word_of_int 1 * word_of_int 1) [0..<nat 1]
               \<lparr>r_diff = [cnt 0 0 100 False], r_i = - 1, r_user_surplus = s_user_surplus ?ss,
                r_system_surplus = s_system_surplus ?ss\<rparr> = ?rs"
      by code_simp
    have e: "accumulate (s_usage ?ss) (r_diff ?rs) 1 [0..<nat 1]
               \<lparr>c_view = view node_h0, c_i = - 1,
                c_user_sum = 0, c_system_sum = 0, c_idle_sum = 0,
                c_diff_user = 0, c_diff_system = 0, c_diff_idle = 0,
                c_max_diff_idle = 0, c_max_diff_idle_index = 0\<rparr> = ?acc"
      by code_simp
    have g: "revise_partial (exact_cpu_count env_half) 1 ?acc = ?rev"
      by (simp add: revise_partial_def ex pd sub_or_zero_def cnt_def Let_def)
    show ?thesis
      unfolding update_view_steps [OF r1 b c q d e g]
      by (simp add: node_h0_def node_h1_def sample_h1_def cnt_def)
  qed
  have p2: "read_cpu_lines cpuset_0 1 [line_h2, line_intr] parse_h2 = Inr (parse_h2_end, [])"
    by code_simp
  have r2: "reset_if_lower node_h1 sample_h2 1 = node_h1"
    by code_simp
  have u2: "update_view env_half node_h1 sample_h2 [cnt 7 7 7 False] 1 1 1
        = (node_h2, \<lparr>user_sum = 60, system_sum = 0, idle_sum = 40\<rparr>)"
  proof -
    let ?ss = "\<lparr>s_usage = [cnt 60 0 140 True], s_i = 0, s_user_surplus = 0, s_system_surplus = 0\<rparr>"
    let ?rs = "\<lparr>r_diff = [cnt 60 0 40 False], r_i = 0, r_user_surplus = 0, r_system_surplus = 0\<rparr>"
    let ?acc = "\<lparr>c_view = [cnt 60 0 90 False], c_i = 0,
                 c_user_sum = 60, c_system_sum = 0, c_idle_sum = 90,
                 c_diff_user = 60, c_diff_system = 0, c_diff_idle = 40,
                 c_max_diff_idle = 40, c_max_diff_idle_index = 0\<rparr>"
    let ?rev = "\<lparr>c_view = [cnt 60 0 40 False], c_i = 0,
                 c_user_sum = 60, c_system_sum = 0, c_idle_sum = 40,
                 c_diff_user = 60, c_diff_system = 0, c_diff_idle = 40,
                 c_max_diff_idle = 40, c_max_diff_idle_index = 0\<rparr>"
    have b: "diff_cpu_usage (usage node_h1) sample_h2 [cnt 7 7 7 False] 1 = ([cnt 60 0 40 False], 100)"
      by code_simp
    have c: "fold (surplus_step sample_h2 [cnt 60 0 40 False] 1) [0..<nat 1]
               \<lparr>s_usage = usage node_h1, s_i = - 1, s_user_surplus = 0,
                s_system_surplus = 0\<rparr> = ?ss"
      by code_simp
    have d: "redistribute (s_usage ?ss) 1 (100 div word_of_int 1 * word_of_int 1) [0..<nat 1]
               \<lparr>r_diff = [cnt 60 0 40 False], r_i = - 1, r_user_surplus = s_user_surplus ?ss,
                r_system_surplus = s_system_surplus ?ss\<rparr> = ?rs"
      by code_simp
    have e: "accumulate (s_usage ?ss) (r_diff ?rs) 1 [0..<nat 1]
               \<lparr>c_view = view node_h1, c_i = - 1,
                c_user_sum = 0, c_system_sum = 0, c_idle_sum = 0,
                c_diff_user = 0, c_diff_system = 0, c_diff_idle = 0,
                c_max_diff_idle = 0, c_max_diff_idle_index = 0\<rparr> = ?acc"
      by code_simp
    have g: "revise_partial (exact_cpu_count env_half) 1 ?acc = ?rev"
      by (simp add: revise_partial_def ex pd sub_or_zero_def cnt_def Let_def)
    show ?thesis
      unfolding update_view_steps [OF r2 b c q d e g]
      by (simp add: node_h1_def node_h2_def sample_h2_def cnt_def)
  qed
  have m2: "max_cpu_count env_two_no_quota = 0"
    by (simp add: max_cpu_count_def env_two_no_quota_def)
  have r3: "reset_if_lower node_w1 sample_w 2 = node_w1"
    by code_simp
  have u3: "update_view env_two_no_quota node_w1 sample_w junk2 2 0 2
        = (node_w2, \<lparr>user_sum = 60, system_sum = 0, idle_sum = 140\<rparr>)"
    by code_simp
  have v: "user (sample_h1 ! 0) \<le> user (sample_h2 ! 0)"
      "system (sample_h1 ! 0) \<le> system (sample_h2 ! 0)"
      "idle (sample_h1 ! 0) \<le> idle (sample_h2 ! 0)"
      "idle (view node_h1 ! 0) = 50" "idle (view node_h2 ! 0) = 40"
      "user (view node_w1 ! 0) = 63" "user (view node_w2 ! 0) = 10"
    by (simp_all add: sample_h1_def sample_h2_def node_h1_def node_h2_def node_w1_def
        node_w2_def cnt_def)
  have lt: "idle (view node_h2 ! 0) < idle (view node_h1 ! 0)"
      "user (view node_w2 ! 0) < user (view node_w1 ! 0)"
    unfolding v by simp_all
  show ?thesis
    using m1 p1 r1 u1 p2 r2 u2 m2 r3 u3 v lt by blast
qed

end
